theory Spec2Isabelle
  imports Main "HOL-Library.AList" "HOL-Library.Char_ord" "HOL-Library.List_Lexorder"
begin


section \<open>Python values\<close>

text \<open>
  Both ingesters work on the values that \<open>json.loads\<close> and \<open>response.json()\<close> return:
  \<open>None\<close>, booleans, integers, strings, lists and dictionaries with string keys.  A
  dictionary keeps its keys in insertion order, so it is an association list here; the
  keys of a parsed JSON object are distinct.  A string is the list of its code points,
  and a \<open>char\<close> is a code point below 256, the Latin-1 range of Unicode (the letter
  \<open>E\<close> with acute accent is \<open>CHR 0xC9\<close>, one character; text with code points
  from 256 on has no counterpart here).  JSON numbers are the integers (floating point
  numbers are outside the model).
\<close>

datatype json =
    JNull
  | JBool bool
  | JInt int
  | JStr string
  | JArr "json list"
  | JObj "(string \<times> json) list"

type_synonym pydict = "(string \<times> json) list"

text \<open>Python's truth value of an object, as \<open>if x\<close>, \<open>not x\<close> and \<open>x or y\<close> read it.\<close>

fun truthy :: "json \<Rightarrow> bool" where
  "truthy JNull = False"
| "truthy (JBool b) = b"
| "truthy (JInt n) = (n \<noteq> 0)"
| "truthy (JStr s) = (s \<noteq> [])"
| "truthy (JArr xs) = (xs \<noteq> [])"
| "truthy (JObj kvs) = (kvs \<noteq> [])"

definition py_or :: "json \<Rightarrow> json \<Rightarrow> json" where
  "py_or a b = (if truthy a then a else b)"

text \<open>\<open>d.get(k)\<close>: the value stored under \<open>k\<close>, or \<open>None\<close>.\<close>

definition dict_get :: "pydict \<Rightarrow> string \<Rightarrow> json" where
  "dict_get d k = (case map_of d k of None \<Rightarrow> JNull | Some v \<Rightarrow> v)"

text \<open>\<open>isinstance(value, (dict, list))\<close>.\<close>

fun is_container :: "json \<Rightarrow> bool" where
  "is_container (JArr xs) = True"
| "is_container (JObj kvs) = True"
| "is_container v = False"

subsection \<open>Strings\<close>

text \<open>
  The lower-case form of a character: the letters \<open>A\<close> to \<open>Z\<close>, and the
  capital letters of the Latin-1 range, 0xC0 to 0xDE without the multiplication sign
  0xD7, move up by 32; every other code point below 256 is its own lower-case form.
\<close>

definition lower_char :: "char \<Rightarrow> char" where
  "lower_char c =
     (case map_of (zip ''ABCDEFGHIJKLMNOPQRSTUVWXYZ'' ''abcdefghijklmnopqrstuvwxyz'') c of
        Some d \<Rightarrow> d
      | None \<Rightarrow>
          (let n = (of_char c :: nat)
           in if 192 \<le> n \<and> n \<le> 222 \<and> n \<noteq> 215 then char_of (n + 32) else c))"

text \<open>\<open>s.lower()\<close> and \<open>s.replace("_", "")\<close>.\<close>

definition lower :: "string \<Rightarrow> string" where
  "lower s = map lower_char s"

definition remove_underscores :: "string \<Rightarrow> string" where
  "remove_underscores s = filter (\<lambda>c. c \<noteq> CHR ''_'') s"

text \<open>\<open>s.endswith(t)\<close> and \<open>t in s\<close> for strings.\<close>

definition endswith :: "string \<Rightarrow> string \<Rightarrow> bool" where
  "endswith s t = (length t \<le> length s \<and> drop (length s - length t) s = t)"

fun contains_str :: "string \<Rightarrow> string \<Rightarrow> bool" where
  "contains_str [] t = (t = [])"
| "contains_str (c # s) t = (take (length t) (c # s) = t \<or> contains_str s t)"

text \<open>Decimal digits of a natural number and of an integer, as \<open>str\<close> prints them.\<close>

definition digit_char :: "nat \<Rightarrow> char" where
  "digit_char d = char_of (48 + d)"

function dec_nat :: "nat \<Rightarrow> string" where
  "dec_nat n = (if n < 10 then [digit_char n] else dec_nat (n div 10) @ [digit_char (n mod 10)])"
  by pat_completeness auto
termination
  by (relation "measure (\<lambda>n. n)") auto

declare dec_nat.simps [simp del]

definition dec_int :: "int \<Rightarrow> string" where
  "dec_int i = (if i < 0 then CHR ''-'' # dec_nat (nat (- i)) else dec_nat (nat i))"

definition hex_char :: "nat \<Rightarrow> char" where
  "hex_char d = (if d < 10 then char_of (48 + d) else char_of (87 + d))"

definition hex2 :: "char \<Rightarrow> string" where
  "hex2 c = (let n = (of_char c :: nat) in [hex_char (n div 16), hex_char (n mod 16)])"

subsection \<open>\<open>str\<close> and \<open>repr\<close>\<close>

text \<open>
  \<open>repr\<close> of a string picks double quotes when the text holds a single quote and no
  double quote, and single quotes otherwise; it escapes the backslash, the chosen quote,
  tab, newline and carriage return, and writes every other code point that is not
  printable (the control characters below 0x20, 0x7F to 0xA0 and the soft hyphen 0xAD)
  as \<open>\xNN\<close>.
\<close>

definition repr_char :: "char \<Rightarrow> char \<Rightarrow> string" where
  "repr_char q c =
     (let n = (of_char c :: nat) in
      if c = q \<or> n = 92 then [char_of (92::nat), c]
      else if n = 9 then [char_of (92::nat), CHR ''t'']
      else if n = 10 then [char_of (92::nat), CHR ''n'']
      else if n = 13 then [char_of (92::nat), CHR ''r'']
      else if n < 32 \<or> (127 \<le> n \<and> n \<le> 160) \<or> n = 173
      then [char_of (92::nat), CHR ''x''] @ hex2 c
      else [c])"

definition repr_str :: "string \<Rightarrow> string" where
  "repr_str s =
     (let q = (if char_of (39::nat) \<in> set s \<and> CHR ''\"'' \<notin> set s
               then CHR ''\"'' else char_of (39::nat))
      in [q] @ concat (map (repr_char q) s) @ [q])"

text \<open>\<open>", ".join(parts)\<close>.\<close>

fun join_comma :: "string list \<Rightarrow> string" where
  "join_comma [] = []"
| "join_comma [x] = x"
| "join_comma (x # y # ys) = x @ '', '' @ join_comma (y # ys)"

fun py_repr :: "json \<Rightarrow> string" where
  "py_repr JNull = ''None''"
| "py_repr (JBool b) = (if b then ''True'' else ''False'')"
| "py_repr (JInt n) = dec_int n"
| "py_repr (JStr s) = repr_str s"
| "py_repr (JArr xs) = ''['' @ join_comma (map py_repr xs) @ '']''"
| "py_repr (JObj kvs) =
     ''{'' @ join_comma (map (\<lambda>kv. repr_str (fst kv) @ '': '' @ py_repr (snd kv)) kvs) @ ''}''"

text \<open>\<open>str(value)\<close>: a string is itself, everything else prints as its \<open>repr\<close>.\<close>

fun py_str :: "json \<Rightarrow> string" where
  "py_str (JStr s) = s"
| "py_str v = py_repr v"


subsection \<open>\<open>json.dumps(value, ensure_ascii=False)\<close>\<close>

text \<open>
  The encoder escapes the double quote, the backslash and the control characters
  below 0x20 (backspace, form feed, newline, carriage return and tab by their short
  forms, the others as \<open>\u00NN\<close>), and separates items with \<open>", "\<close> and
  \<open>": "\<close>.
\<close>

definition dumps_char :: "char \<Rightarrow> string" where
  "dumps_char c =
     (let n = (of_char c :: nat) in
      if n = 34 then [char_of (92::nat), CHR ''\"'']
      else if n = 92 then [char_of (92::nat), char_of (92::nat)]
      else if n = 8 then [char_of (92::nat), CHR ''b'']
      else if n = 12 then [char_of (92::nat), CHR ''f'']
      else if n = 10 then [char_of (92::nat), CHR ''n'']
      else if n = 13 then [char_of (92::nat), CHR ''r'']
      else if n = 9 then [char_of (92::nat), CHR ''t'']
      else if n < 32 then [char_of (92::nat), CHR ''u'', CHR ''0'', CHR ''0''] @ hex2 c
      else [c])"

definition dumps_str :: "string \<Rightarrow> string" where
  "dumps_str s = [CHR ''\"''] @ concat (map dumps_char s) @ [CHR ''\"'']"

fun json_dumps :: "json \<Rightarrow> string" where
  "json_dumps JNull = ''null''"
| "json_dumps (JBool b) = (if b then ''true'' else ''false'')"
| "json_dumps (JInt n) = dec_int n"
| "json_dumps (JStr s) = dumps_str s"
| "json_dumps (JArr xs) = ''['' @ join_comma (map json_dumps xs) @ '']''"
| "json_dumps (JObj kvs) =
     ''{'' @ join_comma (map (\<lambda>kv. dumps_str (fst kv) @ '': '' @ json_dumps (snd kv)) kvs) @ ''}''"

subsection \<open>Paths\<close>

text \<open>
  \<open>Path(p).name\<close> and \<open>Path(p).stem\<close> for a path whose last component is a file
  name, as every path that ends in \<open>.json\<close> is: the name is the text after the last
  slash, and the stem drops the suffix that starts at the last dot of the name, unless
  that dot is the first or the last character of the name.
\<close>

definition path_name :: "string \<Rightarrow> string" where
  "path_name p = rev (takeWhile (\<lambda>c. c \<noteq> CHR ''/'') (rev p))"

definition stem :: "string \<Rightarrow> string" where
  "stem p =
     (let name = path_name p;
          suffix = takeWhile (\<lambda>c. c \<noteq> CHR ''.'') (rev name);
          i = length name - length suffix - 1
      in if CHR ''.'' \<in> set name \<and> 0 < i \<and> suffix \<noteq> [] then take i name else name)"

section \<open>Exceptions\<close>

text \<open>
  A Python exception is a value: its class and the text \<open>str(exc)\<close> gives.  A
  computation that may raise returns \<open>Inl\<close> of the exception.
\<close>

datatype exc =
    AttributeError string
  | TypeError string
  | JSONDecodeError string
  | TransportError string
  | DatabaseError string

fun exc_text :: "exc \<Rightarrow> string" where
  "exc_text (AttributeError m) = m"
| "exc_text (TypeError m) = m"
| "exc_text (JSONDecodeError m) = m"
| "exc_text (TransportError m) = m"
| "exc_text (DatabaseError m) = m"

section \<open>Functions shared by both ingesters\<close>

text \<open>\<open>normalize_value\<close>: a dict or a list is stored as its JSON text.\<close>

definition normalize_value :: "json \<Rightarrow> json" where
  "normalize_value v = (if is_container v then JStr (json_dumps v) else v)"

text \<open>
  \<open>get_schema_id\<close>: the loop over \<open>data.items()\<close> returns at the first key whose
  normal form is \<open>schemaid\<close>, and \<open>None\<close> when the loop ends.  The argument is a
  dict; on any other document the callers raise \<open>AttributeError\<close> (see there).
\<close>

fun get_schema_id :: "pydict \<Rightarrow> string option" where
  "get_schema_id [] = None"
| "get_schema_id ((k, v) # rest) =
     (if lower (remove_underscores k) = ''schemaid'' then Some (py_str v)
      else get_schema_id rest)"

text \<open>The text of an f-string field in single quotes.\<close>

definition quoted :: "string \<Rightarrow> string" where
  "quoted s = [CHR 0x27] @ s @ [CHR 0x27]"

definition not_a_dict :: exc where
  "not_a_dict = AttributeError ''object is not a dict''"

text \<open>
  \<open>get_identifier\<close> of the remote-feed ingester, and the expression of line 166 of
  the filesystem ingester, which does not apply \<open>str\<close>.
\<close>

definition get_identifier :: "pydict \<Rightarrow> string \<Rightarrow> string" where
  "get_identifier d fallback =
     py_str (py_or (py_or (dict_get d ''Identifier'') (dict_get d ''identifier'')) (JStr fallback))"

definition identifier_of :: "pydict \<Rightarrow> string \<Rightarrow> json" where
  "identifier_of d file_stem =
     py_or (py_or (dict_get d ''Identifier'') (dict_get d ''identifier'')) (JStr file_stem)"

text \<open>
  The projection of a document on the columns of its table (lines 248 to 258 of the
  remote-feed ingester, lines 95 to 107 of the filesystem ingester; the two loops differ
  only in the value that fills a \<open>documentlocation\<close> column).  \<open>data_keys\<close> is the
  dict comprehension: a later key overwrites an earlier one with the same lower-case
  form.
\<close>

definition data_keys :: "pydict \<Rightarrow> string \<Rightarrow> string option" where
  "data_keys d = fold (\<lambda>k m. m(lower k \<mapsto> k)) (map fst d) Map.empty"

definition column_value :: "pydict \<Rightarrow> json \<Rightarrow> json \<Rightarrow> string \<Rightarrow> json" where
  "column_value d identifier location column =
     (let v = (case data_keys d (lower column) of None \<Rightarrow> JNull | Some k \<Rightarrow> dict_get d k);
          v' = (if v = JNull then
                  (if lower column = ''identifier'' then identifier
                   else if lower column = ''documentlocation'' then location
                   else v)
                else v)
      in normalize_value v')"

definition row_values :: "string list \<Rightarrow> pydict \<Rightarrow> json \<Rightarrow> json \<Rightarrow> json list" where
  "row_values columns d identifier location = map (column_value d identifier location) columns"


section \<open>The database connection\<close>

text \<open>
  The ingesters reach the database through a driver connection and one cursor.  The
  model keeps what the statements they issue can observe: the target tables (their
  columns in order, their primary and unique keys, their rows), the \<open>ingest_state\<close>
  table, the last committed copy of both, and a log of every statement and HTTP request
  issued.  Assumptions about the store: a row is stored as the parameter values that
  were sent; \<open>=\<close> in a \<open>WHERE\<close> clause is equality of values, with \<open>NULL\<close> equal
  to nothing; column names are matched without regard to case; a primary key is one of
  the unique keys.

  Any call on the connection can fail for reasons outside the program (a lost
  connection, a lock timeout, a rejected value).  The connection therefore carries a
  fault schedule: the calls are counted, and the call with number \<open>n\<close> raises the
  driver's error with text \<open>m\<close> when the schedule maps \<open>n\<close> to \<open>m\<close>.
\<close>

record table =
  t_columns :: "string list"
  t_unique :: "string list list"
  t_rows :: "json list list"

record state_row =
  s_etag :: "string option"
  s_last_modified :: "string option"
  s_schema_id :: "string option"
  s_identifier :: "string option"
  s_status :: "string option"
  s_error :: "string option"

datatype stmt =
    CreateStateTable
  | SelectState "string list"
  | ShowTablesLike string
  | ShowColumns string
  | SelectForUpdate string string json
  | InsertRow string "string list" "json list"
  | UpsertRow string "string list" "json list"
  | DeleteRows string string json
  | ReplaceState string state_row

datatype event = Exec stmt | Commit | Rollback | Close | HttpGet string

record conn =
  tables :: "(string \<times> table) list"
  ingest_state :: "(string \<times> state_row) list"
  saved_tables :: "(string \<times> table) list"
  saved_state :: "(string \<times> state_row) list"
  autocommit :: bool
  clock :: nat
  faults :: "(nat \<times> string) list"
  trace :: "event list"

type_synonym 'a action = "conn \<Rightarrow> (exc + 'a) \<times> conn"

definition ret :: "'a \<Rightarrow> 'a action" where
  "ret x c = (Inr x, c)"

definition raise :: "exc \<Rightarrow> 'a action" where
  "raise e c = (Inl e, c)"

text \<open>Sequencing: an exception of the first part skips the second.\<close>

definition andthen :: "'a action \<Rightarrow> ('a \<Rightarrow> 'b action) \<Rightarrow> 'b action" where
  "andthen m f c = (case m c of (Inl e, c') \<Rightarrow> (Inl e, c') | (Inr x, c') \<Rightarrow> f x c')"

text \<open>\<open>try: m except Exception as exc: h(exc)\<close>.\<close>

definition try_except :: "'a action \<Rightarrow> (exc \<Rightarrow> 'a action) \<Rightarrow> 'a action" where
  "try_except m h c = (case m c of (Inl e, c') \<Rightarrow> h e c' | (Inr x, c') \<Rightarrow> (Inr x, c'))"

text \<open>The events a computation added to the log.\<close>

definition emitted :: "conn \<Rightarrow> conn \<Rightarrow> event list" where
  "emitted c c' = drop (length (trace c)) (trace c')"

text \<open>One call on the connection: logged, counted, and failed when the schedule says so.\<close>

definition issue :: "event \<Rightarrow> unit action" where
  "issue ev c =
     (let c' = c\<lparr>clock := clock c + 1, trace := trace c @ [ev]\<rparr>
      in case map_of (faults c) (clock c) of
           Some m \<Rightarrow> (Inl (DatabaseError m), c')
         | None \<Rightarrow> (Inr (), c'))"

subsection \<open>What the statements mean\<close>

text \<open>
  \<open>LIKE\<close>: \<open>%\<close> stands for any text, \<open>_\<close> for any one character, and a backslash
  makes the next character literal.
\<close>

fun like_match :: "string \<Rightarrow> string \<Rightarrow> bool" where
  "like_match [] s = (s = [])"
| "like_match (p # ps) s =
     (if p = CHR ''%'' then
        (like_match ps s \<or> (case s of [] \<Rightarrow> False | x # xs \<Rightarrow> like_match (p # ps) xs))
      else if p = CHR ''_'' then (case s of [] \<Rightarrow> False | x # xs \<Rightarrow> like_match ps xs)
      else if p = char_of (92::nat) then
        (case ps of
           [] \<Rightarrow> s = [p]
         | q # qs \<Rightarrow> (case s of [] \<Rightarrow> False | x # xs \<Rightarrow> x = q \<and> like_match qs xs))
      else (case s of [] \<Rightarrow> False | x # xs \<Rightarrow> x = p \<and> like_match ps xs))"

definition cell :: "string list \<Rightarrow> json list \<Rightarrow> string \<Rightarrow> json option" where
  "cell columns row name = map_of (zip (map lower columns) row) (lower name)"

definition sql_eq :: "json \<Rightarrow> json \<Rightarrow> bool" where
  "sql_eq a b = (a \<noteq> JNull \<and> b \<noteq> JNull \<and> a = b)"

definition matches :: "string list \<Rightarrow> string \<Rightarrow> json \<Rightarrow> json list \<Rightarrow> bool" where
  "matches columns name v row = (case cell columns row name of None \<Rightarrow> False | Some x \<Rightarrow> sql_eq x v)"

text \<open>
  Two rows collide on a unique key when they agree on all its columns and none of the
  values is \<open>NULL\<close>.
\<close>

definition key_of :: "string list \<Rightarrow> string list \<Rightarrow> json list \<Rightarrow> json option list" where
  "key_of columns k row = map (cell columns row) k"

definition key_set :: "json option list \<Rightarrow> bool" where
  "key_set vs = (vs \<noteq> [] \<and> list_all (\<lambda>x. x \<noteq> None \<and> x \<noteq> Some JNull) vs)"

definition collide :: "string list \<Rightarrow> string list \<Rightarrow> json list \<Rightarrow> json list \<Rightarrow> bool" where
  "collide columns k r r' = (key_set (key_of columns k r) \<and> key_of columns k r = key_of columns k r')"

definition collides_any :: "table \<Rightarrow> json list \<Rightarrow> json list list \<Rightarrow> bool" where
  "collides_any t r rows =
     list_ex (\<lambda>k. list_ex (collide (t_columns t) k r) rows) (t_unique t)"

definition store_table :: "string \<Rightarrow> table \<Rightarrow> conn \<Rightarrow> conn" where
  "store_table n t c =
     (let ts = AList.update n t (tables c)
      in c\<lparr>tables := ts, saved_tables := (if autocommit c then ts else saved_tables c)\<rparr>)"

definition store_state :: "string \<Rightarrow> state_row \<Rightarrow> conn \<Rightarrow> conn" where
  "store_state p r c =
     (let st = AList.update p r (ingest_state c)
      in c\<lparr>ingest_state := st, saved_state := (if autocommit c then st else saved_state c)\<rparr>)"

definition no_table :: "string \<Rightarrow> exc" where
  "no_table n = DatabaseError (''(1146, Table '' @ n @ '' doesn't exist)'')"

definition no_column :: "string \<Rightarrow> exc" where
  "no_column n = DatabaseError (''(1054, Unknown column '' @ n @ '')'')"

definition duplicate_entry :: exc where
  "duplicate_entry = DatabaseError ''(1062, Duplicate entry)''"

definition bad_values :: exc where
  "bad_values = DatabaseError ''(1136, Column count doesn't match value count)''"

text \<open>\<open>conn.commit()\<close>, \<open>conn.rollback()\<close> and \<open>conn.close()\<close>.\<close>

definition commit :: "unit action" where
  "commit = andthen (issue Commit)
     (\<lambda>_ c. (Inr (), c\<lparr>saved_tables := tables c, saved_state := ingest_state c\<rparr>))"

definition rollback :: "unit action" where
  "rollback = andthen (issue Rollback)
     (\<lambda>_ c. (Inr (), c\<lparr>tables := saved_tables c, ingest_state := saved_state c\<rparr>))"

definition close :: "conn \<Rightarrow> conn" where
  "close c = c\<lparr>tables := saved_tables c, ingest_state := saved_state c, trace := trace c @ [Close]\<rparr>"

text \<open>\<open>SHOW TABLES LIKE %s\<close> followed by \<open>fetchone() is not None\<close>.\<close>

definition table_exists :: "string \<Rightarrow> bool action" where
  "table_exists n = andthen (issue (Exec (ShowTablesLike n)))
     (\<lambda>_ c. (Inr (list_ex (like_match n) (map fst (tables c))), c))"

text \<open>\<open>SHOW COLUMNS FROM `table`\<close>, first field of every row.\<close>

definition get_columns :: "string \<Rightarrow> string list action" where
  "get_columns n = andthen (issue (Exec (ShowColumns n)))
     (\<lambda>_ c. case map_of (tables c) n of
               None \<Rightarrow> (Inl (no_table n), c)
             | Some t \<Rightarrow> (Inr (t_columns t), c))"

text \<open>\<open>SELECT 1 FROM `table` WHERE `column` = %s LIMIT 1 FOR UPDATE\<close>: is there a row?\<close>

definition select_for_update :: "string \<Rightarrow> string \<Rightarrow> json \<Rightarrow> bool action" where
  "select_for_update n column v = andthen (issue (Exec (SelectForUpdate n column v)))
     (\<lambda>_ c. case map_of (tables c) n of
               None \<Rightarrow> (Inl (no_table n), c)
             | Some t \<Rightarrow>
                 if lower column \<notin> set (map lower (t_columns t)) then (Inl (no_column column), c)
                 else (Inr (list_ex (matches (t_columns t) column v) (t_rows t)), c))"

text \<open>
  \<open>INSERT INTO `table` (columns) VALUES (values)\<close>.  The ingesters always name the
  columns that \<open>SHOW COLUMNS\<close> returned, one value each; any other column list is
  rejected here.  A row that collides with a stored row on a unique key is rejected.
\<close>

definition insert_row :: "string \<Rightarrow> string list \<Rightarrow> json list \<Rightarrow> unit action" where
  "insert_row n columns vals = andthen (issue (Exec (InsertRow n columns vals)))
     (\<lambda>_ c. case map_of (tables c) n of
               None \<Rightarrow> (Inl (no_table n), c)
             | Some t \<Rightarrow>
                 if columns \<noteq> t_columns t \<or> length vals \<noteq> length columns then (Inl bad_values, c)
                 else if collides_any t vals (t_rows t) then (Inl duplicate_entry, c)
                 else (Inr (), store_table n (t\<lparr>t_rows := t_rows t @ [vals]\<rparr>) c))"

text \<open>
  \<open>INSERT ... ON DUPLICATE KEY UPDATE c = VALUES(c)\<close> for every column \<open>c\<close>: the
  first unique key on which a stored row collides with the new row selects that row,
  which takes the new values; the statement fails if the result collides with another
  row.  Without a collision the row is added.
\<close>

definition first_collision :: "table \<Rightarrow> json list \<Rightarrow> nat option" where
  "first_collision t r =
     (case find (\<lambda>k. list_ex (collide (t_columns t) k r) (t_rows t)) (t_unique t) of
        None \<Rightarrow> None
      | Some k \<Rightarrow> Some (length (takeWhile (\<lambda>r'. \<not> collide (t_columns t) k r r') (t_rows t))))"

definition upsert_row :: "string \<Rightarrow> string list \<Rightarrow> json list \<Rightarrow> unit action" where
  "upsert_row n columns vals = andthen (issue (Exec (UpsertRow n columns vals)))
     (\<lambda>_ c. case map_of (tables c) n of
               None \<Rightarrow> (Inl (no_table n), c)
             | Some t \<Rightarrow>
                 if columns \<noteq> t_columns t \<or> length vals \<noteq> length columns then (Inl bad_values, c)
                 else (case first_collision t vals of
                         None \<Rightarrow> (Inr (), store_table n (t\<lparr>t_rows := t_rows t @ [vals]\<rparr>) c)
                       | Some i \<Rightarrow>
                           if collides_any t vals (take i (t_rows t) @ drop (Suc i) (t_rows t))
                           then (Inl duplicate_entry, c)
                           else (Inr (), store_table n (t\<lparr>t_rows := (t_rows t)[i := vals]\<rparr>) c)))"

text \<open>\<open>DELETE FROM `table` WHERE `column` = %s\<close>.\<close>

definition delete_rows :: "string \<Rightarrow> string \<Rightarrow> json \<Rightarrow> unit action" where
  "delete_rows n column v = andthen (issue (Exec (DeleteRows n column v)))
     (\<lambda>_ c. case map_of (tables c) n of
               None \<Rightarrow> (Inl (no_table n), c)
             | Some t \<Rightarrow>
                 if lower column \<notin> set (map lower (t_columns t)) then (Inl (no_column column), c)
                 else (Inr (), store_table n
                         (t\<lparr>t_rows := filter (\<lambda>r. \<not> matches (t_columns t) column v r) (t_rows t)\<rparr>) c))"

text \<open>
  \<open>CREATE TABLE IF NOT EXISTS ingest_state\<close>, \<open>REPLACE INTO ingest_state\<close> (the path
  is the primary key) and \<open>SELECT ... FROM ingest_state WHERE path IN (...)\<close>.
\<close>

definition ensure_state_table :: "unit action" where
  "ensure_state_table = issue (Exec CreateStateTable)"

definition replace_state :: "string \<Rightarrow> state_row \<Rightarrow> unit action" where
  "replace_state p r = andthen (issue (Exec (ReplaceState p r))) (\<lambda>_ c. (Inr (), store_state p r c))"

definition select_state :: "string list \<Rightarrow> (string \<times> state_row) list action" where
  "select_state ps = andthen (issue (Exec (SelectState ps)))
     (\<lambda>_ c. (Inr (filter (\<lambda>pr. fst pr \<in> set ps) (ingest_state c)), c))"

section \<open>Schema validation\<close>

text \<open>
  A violation, as the validator's \<open>iter_errors\<close> yields it: the path of the offending
  value inside the document (object keys and array indices) and the message.  Python
  compares two paths element by element; at the first position where they differ, two
  keys compare as strings and two indices as numbers, and a key against an index
  raises \<open>TypeError\<close>.  The paths found in one document never meet that case: where
  two of them first differ, both elements address the same object or the same array.
\<close>

datatype pelem = Idx nat | Key string

type_synonym violation = "pelem list \<times> string"

fun elem_lt :: "pelem \<Rightarrow> pelem \<Rightarrow> bool option" where
  "elem_lt (Idx i) (Idx j) = Some (i < j)"
| "elem_lt (Key a) (Key b) = Some (a < b)"
| "elem_lt (Idx i) (Key b) = None"
| "elem_lt (Key a) (Idx j) = None"

text \<open>\<open>p < q\<close> on two paths, \<open>None\<close> for the \<open>TypeError\<close>.\<close>

fun path_lt :: "pelem list \<Rightarrow> pelem list \<Rightarrow> bool option" where
  "path_lt [] [] = Some False"
| "path_lt [] (y # q) = Some True"
| "path_lt (x # p) [] = Some False"
| "path_lt (x # p) (y # q) = (if x = y then path_lt p q else elem_lt x y)"

definition comparable :: "pelem list \<Rightarrow> pelem list \<Rightarrow> bool" where
  "comparable p q = (path_lt p q \<noteq> None)"

text \<open>
  The order on path elements, made total by putting indices before keys, and with it
  the lexicographic order on paths; on comparable paths it is Python's.  It serves the
  library's stable sort.
\<close>

instantiation pelem :: linorder
begin

fun less_eq_pelem :: "pelem \<Rightarrow> pelem \<Rightarrow> bool" where
  "less_eq_pelem (Idx i) (Idx j) = (i \<le> j)"
| "less_eq_pelem (Key a) (Key b) = (a \<le> b)"
| "less_eq_pelem (Idx i) (Key b) = True"
| "less_eq_pelem (Key a) (Idx j) = False"

definition less_pelem :: "pelem \<Rightarrow> pelem \<Rightarrow> bool" where
  "less_pelem x y = (x \<le> y \<and> \<not> y \<le> (x::pelem))"

instance
proof
  fix x y z :: pelem
  show "(x < y) = (x \<le> y \<and> \<not> y \<le> x)" by (simp add: less_pelem_def)
  show "x \<le> x" by (cases x) auto
  show "x \<le> y \<Longrightarrow> y \<le> z \<Longrightarrow> x \<le> z" by (cases x; cases y; cases z) auto
  show "x \<le> y \<Longrightarrow> y \<le> x \<Longrightarrow> x = y" by (cases x; cases y) auto
  show "x \<le> y \<or> y \<le> x" by (cases x; cases y) auto
qed

end

text \<open>
  \<open>sorted(errors, key=lambda e: e.path)\<close>: a stable sort by path.  A list that holds
  two incomparable paths is answered with the \<open>TypeError\<close> of their comparison.
\<close>

definition sorted_by_path :: "violation list \<Rightarrow> exc + violation list" where
  "sorted_by_path vs =
     (if list_all (\<lambda>v. list_all (\<lambda>w. comparable (fst v) (fst w)) vs) vs
      then Inr (sort_key fst vs)
      else Inl (TypeError ''< not supported between instances of str and int''))"

text \<open>
  What the ingester reads from its surroundings: the remote documents, the schema
  directory and the two validators of the \<open>jsonschema\<close> library.  \<open>http_get u\<close> is
  \<open>session.get(u, timeout=30)\<close>, \<open>raise_for_status()\<close> and \<open>response.json()\<close>
  together; \<open>file_url h\<close> is \<open>build_file_url(base_url, h)\<close>; \<open>schema_exists s\<close> and
  \<open>load_schema s\<close> are \<open>exists()\<close> and \<open>json.loads(read_text())\<close> of the file
  \<open>schema_path s\<close>; \<open>draft4_errors schema payload\<close> is
  \<open>Draft4Validator(schema).iter_errors(payload)\<close>, in the order of the iteration.
\<close>

record env =
  http_get :: "string \<Rightarrow> exc + json"
  file_url :: "string \<Rightarrow> string"
  schema_path :: "string \<Rightarrow> string"
  schema_exists :: "string \<Rightarrow> bool"
  load_schema :: "string \<Rightarrow> exc + json"
  draft4_errors :: "json \<Rightarrow> json \<Rightarrow> exc + violation list"
  draft7_errors :: "json \<Rightarrow> json \<Rightarrow> exc + violation list"

text \<open>
  \<open>build_validator\<close>: is the schema a draft-04 schema?  \<open>schema_data.get\<close> raises
  unless the schema is a dict, and \<open>"draft-04" in x\<close> is a substring test on a string,
  a membership test on a list or a dict, and a \<open>TypeError\<close> on anything else.
\<close>

fun build_validator :: "json \<Rightarrow> exc + bool" where
  "build_validator (JObj kvs) =
     (case (case map_of kvs ''$schema'' of None \<Rightarrow> JStr [] | Some v \<Rightarrow> v) of
        JStr s \<Rightarrow> Inr (contains_str s ''draft-04'')
      | JArr xs \<Rightarrow> Inr (JStr ''draft-04'' \<in> set xs)
      | JObj m \<Rightarrow> Inr (''draft-04'' \<in> set (map fst m))
      | _ \<Rightarrow> Inl (TypeError ''argument is not iterable''))"
| "build_validator v = Inl not_a_dict"

text \<open>\<open>validate_payload\<close>: the message of the first violation of the sorted list, or \<open>None\<close>.\<close>

definition validate_payload :: "env \<Rightarrow> string \<Rightarrow> json \<Rightarrow> exc + string option" where
  "validate_payload e schema_id payload =
     (case load_schema e schema_id of
        Inl x \<Rightarrow> Inl x
      | Inr schema_data \<Rightarrow>
          (case build_validator schema_data of
             Inl x \<Rightarrow> Inl x
           | Inr d4 \<Rightarrow>
               (case (if d4 then draft4_errors e else draft7_errors e) schema_data payload of
                  Inl x \<Rightarrow> Inl x
                | Inr vs \<Rightarrow>
                    (case sorted_by_path vs of
                       Inl x \<Rightarrow> Inl x
                     | Inr [] \<Rightarrow> Inr None
                     | Inr (v # rest) \<Rightarrow> Inr (Some (snd v))))))"

section \<open>The remote-feed ingester\<close>

definition FILE_TYPE_IDENTIFIER :: string where
  "FILE_TYPE_IDENTIFIER =
     ''This is a EMPI-RF metadata File. Do not change this for crawler identification''"

text \<open>An entry of the listing, as \<open>parse_propfind\<close> returns it.\<close>

record entry =
  href :: string
  etag :: string
  last_modified :: string
  content_length :: string
  is_collection :: bool

text \<open>The three fields of a state row that \<open>get_state_map\<close> keeps.\<close>

record state_entry =
  e_etag :: "string option"
  e_last_modified :: "string option"
  e_status :: "string option"

type_synonym state_map = "(string \<times> state_entry) list"

function chunks_of :: "nat \<Rightarrow> 'a list \<Rightarrow> 'a list list" where
  "chunks_of n xs = (if n = 0 \<or> xs = [] then [] else take n xs # chunks_of n (drop n xs))"
  by pat_completeness auto
termination
  by (relation "measure (\<lambda>(n, xs). length xs)") auto

declare chunks_of.simps [simp del]

definition entry_of :: "state_row \<Rightarrow> state_entry" where
  "entry_of r = \<lparr>e_etag = s_etag r, e_last_modified = s_last_modified r, e_status = s_status r\<rparr>"

definition add_rows :: "(string \<times> state_row) list \<Rightarrow> state_map \<Rightarrow> state_map" where
  "add_rows rows st = fold (\<lambda>pr m. AList.update (fst pr) (entry_of (snd pr)) m) rows st"

fun load_chunks :: "string list list \<Rightarrow> state_map \<Rightarrow> state_map action" where
  "load_chunks [] st = ret st"
| "load_chunks (ch # chs) st =
     andthen (select_state ch) (\<lambda>rows. load_chunks chs (add_rows rows st))"

definition get_state_map :: "string list \<Rightarrow> state_map action" where
  "get_state_map paths = (if paths = [] then ret [] else load_chunks (chunks_of 500 paths) [])"

text \<open>
  \<open>process_file\<close>: the checks, then the write under the insert-only-if-absent policy.
  The result is the pair \<open>(ok, message)\<close>.  \<open>insert_if_absent\<close> is the write step,
  lines 240 to 265, and \<open>identifier_col\<close> the column it looks the identifier up in
  (the filesystem ingester's \<open>delete_row\<close> picks its column by the same expression).
\<close>

definition identifier_col :: "string list \<Rightarrow> string" where
  "identifier_col columns = (if ''Identifier'' \<in> set columns then ''Identifier'' else ''identifier'')"

definition insert_if_absent ::
  "string \<Rightarrow> pydict \<Rightarrow> string \<Rightarrow> string \<Rightarrow> string list \<Rightarrow> (bool \<times> string) action"
where
  "insert_if_absent url d schema_id identifier columns =
     andthen
       (select_for_update schema_id (identifier_col columns) (JStr identifier))
       (\<lambda>found.
          if found then
            andthen commit
              (\<lambda>_. ret (False, ''Identifier '' @ quoted identifier @ '' already exists in ''
                            @ quoted schema_id @ ''.''))
          else
            andthen
              (insert_row schema_id columns (row_values columns d (JStr identifier) (JStr url)))
              (\<lambda>_. andthen commit (\<lambda>_. ret (True, ''inserted''))))"

definition checked_write ::
  "string \<Rightarrow> pydict \<Rightarrow> string \<Rightarrow> string \<Rightarrow> (bool \<times> string) action"
where
  "checked_write url d schema_id identifier =
     andthen (table_exists schema_id)
       (\<lambda>there.
          if \<not> there then ret (False, ''Table '' @ quoted schema_id @ '' does not exist.'')
          else
            andthen (get_columns schema_id)
              (\<lambda>columns.
                 if columns = [] then ret (False, ''Table '' @ quoted schema_id @ '' has no columns.'')
                 else insert_if_absent url d schema_id identifier columns))"

definition process_file ::
  "env \<Rightarrow> string \<Rightarrow> pydict \<Rightarrow> string \<Rightarrow> string \<Rightarrow> string list option \<Rightarrow> (bool \<times> string) action"
where
  "process_file e url d schema_id identifier allowed_schemaids =
     (if (case allowed_schemaids of None \<Rightarrow> False | Some l \<Rightarrow> schema_id \<notin> set l)
      then ret (False, ''SchemaID '' @ quoted schema_id @ '' not in allow-list.'')
      else if \<not> schema_exists e schema_id
      then ret (False, ''Schema file not found: '' @ schema_path e schema_id)
      else
        (case validate_payload e schema_id (JObj d) of
           Inl x \<Rightarrow> raise x
         | Inr None \<Rightarrow> checked_write url d schema_id identifier
         | Inr (Some validation_error) \<Rightarrow>
             if validation_error = [] then checked_write url d schema_id identifier
             else ret (False, ''Schema validation failed: '' @ validation_error)))"

text \<open>
  The rows that the loop writes to \<open>ingest_state\<close>: with five columns (schema and
  identifier stay \<open>NULL\<close>) and with seven.  Each \<open>REPLACE\<close> is followed by a commit.
\<close>

definition skip_row :: "entry \<Rightarrow> string \<Rightarrow> string \<Rightarrow> state_row" where
  "skip_row it status err =
     \<lparr>s_etag = Some (etag it), s_last_modified = Some (last_modified it),
      s_schema_id = None, s_identifier = None, s_status = Some status, s_error = Some err\<rparr>"

definition result_row :: "entry \<Rightarrow> string \<Rightarrow> string \<Rightarrow> string \<Rightarrow> string option \<Rightarrow> state_row" where
  "result_row it schema_id identifier status err =
     \<lparr>s_etag = Some (etag it), s_last_modified = Some (last_modified it),
      s_schema_id = Some schema_id, s_identifier = Some identifier,
      s_status = Some status, s_error = err\<rparr>"

definition record_skip :: "entry \<Rightarrow> string \<Rightarrow> string \<Rightarrow> unit action" where
  "record_skip it status err =
     andthen (replace_state (href it) (skip_row it status err)) (\<lambda>_. commit)"

definition record_result :: "entry \<Rightarrow> string \<Rightarrow> string \<Rightarrow> string \<Rightarrow> string option \<Rightarrow> unit action" where
  "record_result it schema_id identifier status err =
     andthen (replace_state (href it) (result_row it schema_id identifier status err)) (\<lambda>_. commit)"

text \<open>
  \<open>session.get\<close> and \<open>response.json()\<close>: the request is logged, the answer is the
  environment's.  \<open>download\<close> is the \<open>try\<close> around them: a failure is recorded as an
  error of the entry, and the loop goes on to the next entry.
\<close>

definition fetch :: "env \<Rightarrow> string \<Rightarrow> json action" where
  "fetch e url c = (http_get e url, c\<lparr>trace := trace c @ [HttpGet url]\<rparr>)"

definition download :: "env \<Rightarrow> entry \<Rightarrow> json option action" where
  "download e it =
     try_except
       (andthen (fetch e (file_url e (href it))) (\<lambda>data. ret (Some data)))
       (\<lambda>x. andthen (record_skip it ''error'' (''download/parse error: '' @ exc_text x))
               (\<lambda>_. ret None))"

text \<open>
  The \<open>try\<close> around \<open>process_file\<close> and the state row that follows it, with its
  handler: roll back, record the error, commit.
\<close>

definition process_and_record ::
  "env \<Rightarrow> string list option \<Rightarrow> entry \<Rightarrow> pydict \<Rightarrow> string \<Rightarrow> string \<Rightarrow> unit action"
where
  "process_and_record e allowed_schemaids it d schema_id identifier =
     try_except
       (andthen
          (process_file e (file_url e (href it)) d schema_id identifier allowed_schemaids)
          (\<lambda>r. record_result it schema_id identifier
                  (if fst r then ''ok'' else ''skipped'')
                  (if fst r then None else Some (snd r))))
       (\<lambda>x. andthen rollback
               (\<lambda>_. record_result it schema_id identifier ''error'' (Some (exc_text x))))"

text \<open>
  The body of the loop over the listed files (lines 349 to 422 of \<open>main\<close>).  \<open>Inl\<close> is
  an exception that no handler of the loop catches: it ends the scan.  \<open>unchanged\<close>
  is the test of line 355 (a row of the state map is a dict of three entries, never
  empty, so \<open>prev\<close> is true exactly when the path has a row), and \<open>data.get\<close>
  raises on a document that is not a dict.
\<close>

definition unchanged :: "state_map \<Rightarrow> entry \<Rightarrow> bool" where
  "unchanged state_map it =
     (case map_of state_map (href it) of
        None \<Rightarrow> False
      | Some prev \<Rightarrow> e_etag prev = Some (etag it)
                    \<and> e_last_modified prev = Some (last_modified it)
                    \<and> e_status prev = Some ''ok'')"

definition scan_item :: "env \<Rightarrow> string list option \<Rightarrow> state_map \<Rightarrow> entry \<Rightarrow> unit action" where
  "scan_item e allowed_schemaids state_map it =
     (if unchanged state_map it then ret ()
      else
        andthen (download e it) (\<lambda>got.
          case got of
            None \<Rightarrow> ret ()
          | Some (JObj d) \<Rightarrow>
              if dict_get d ''FileTypeIdentifier'' \<noteq> JStr FILE_TYPE_IDENTIFIER
              then record_skip it ''skipped'' ''invalid FileTypeIdentifier''
              else
                (case get_schema_id d of
                   None \<Rightarrow> record_skip it ''skipped'' ''missing SchemaID''
                 | Some schema_id \<Rightarrow>
                     if schema_id = [] then record_skip it ''skipped'' ''missing SchemaID''
                     else process_and_record e allowed_schemaids it d schema_id
                            (get_identifier d (stem (href it))))
          | Some _ \<Rightarrow> raise not_a_dict))"

fun scan_items :: "env \<Rightarrow> string list option \<Rightarrow> state_map \<Rightarrow> entry list \<Rightarrow> unit action" where
  "scan_items e allowed_schemaids state_map [] = ret ()"
| "scan_items e allowed_schemaids state_map (it # its) =
     andthen (scan_item e allowed_schemaids state_map it)
       (\<lambda>_. scan_items e allowed_schemaids state_map its)"

text \<open>
  One pass of the loop of \<open>main\<close> on an open connection, with the listing that
  \<open>propfind\<close> returned: the state table, the candidate files, the state map, the
  files one by one, and the \<open>finally\<close> that closes the connection.
\<close>

definition candidate_files :: "entry list \<Rightarrow> entry list" where
  "candidate_files entries =
     filter (\<lambda>e. \<not> is_collection e \<and> endswith (lower (href e)) ''.json'') entries"

definition scan :: "env \<Rightarrow> string list option \<Rightarrow> entry list \<Rightarrow> conn \<Rightarrow> (exc + unit) \<times> conn" where
  "scan e allowed_schemaids entries c =
     (case andthen ensure_state_table (\<lambda>_. andthen commit (\<lambda>_.
             andthen (get_state_map (map href (candidate_files entries))) (\<lambda>state_map.
               scan_items e allowed_schemaids state_map (candidate_files entries)))) c of
        (r, c') \<Rightarrow> (r, close c'))"

section \<open>The filesystem ingester\<close>

text \<open>
  \<open>process_file\<close> of the filesystem ingester, called with the parsed document: the
  merge-write policy.
\<close>

definition fs_process_file :: "string \<Rightarrow> string \<Rightarrow> json \<Rightarrow> pydict \<Rightarrow> unit action" where
  "fs_process_file file_path table_name identifier d =
     andthen (table_exists table_name) (\<lambda>there.
       if \<not> there then ret ()
       else andthen (get_columns table_name) (\<lambda>columns.
         if columns = [] then ret ()
         else upsert_row table_name columns
                (row_values columns d identifier (JStr file_path))))"

definition delete_row :: "string \<Rightarrow> json \<Rightarrow> unit action" where
  "delete_row table_name identifier =
     andthen (get_columns table_name) (\<lambda>columns.
       if ''Identifier'' \<notin> set columns \<and> ''identifier'' \<notin> set columns then ret ()
       else delete_rows table_name (identifier_col columns) identifier)"

text \<open>
  A file that \<open>rglob("*.json")\<close> found: its path and what reading and parsing it gives.
  The snapshot maps a path to the table and the identifier of its document; the one
  read at the start is the one a previous run wrote, or empty.
\<close>

record source_file =
  f_path :: string
  f_content :: "exc + json"

type_synonym snapshot = "(string \<times> string \<times> json) list"

text \<open>\<open>try: m except Exception: print(...)\<close>.\<close>

definition attempt :: "unit action \<Rightarrow> unit action" where
  "attempt m = try_except m (\<lambda>x. ret ())"

text \<open>
  The loop over the files.  A file that cannot be read or parsed is passed over, and
  so is a document without a SchemaID; \<open>data.items()\<close> raises on a document that is
  not a dict, outside every handler.
\<close>

fun ingest_files :: "source_file list \<Rightarrow> snapshot \<Rightarrow> snapshot action" where
  "ingest_files [] current_state = ret current_state"
| "ingest_files (f # fs) current_state =
     (if path_name (f_path f) = ''.db_ingest_state.json'' then ingest_files fs current_state
      else
        (case f_content f of
           Inl x \<Rightarrow> ingest_files fs current_state
         | Inr (JObj d) \<Rightarrow>
             (case get_schema_id d of
                None \<Rightarrow> ingest_files fs current_state
              | Some schema_id \<Rightarrow>
                  if schema_id = [] then ingest_files fs current_state
                  else
                    andthen
                      (attempt (fs_process_file (f_path f) schema_id
                                  (identifier_of d (stem (f_path f))) d))
                      (\<lambda>_. ingest_files fs
                              (AList.update (f_path f)
                                 (schema_id, identifier_of d (stem (f_path f))) current_state)))
         | Inr _ \<Rightarrow> raise not_a_dict))"

fun delete_missing_rows :: "snapshot \<Rightarrow> snapshot \<Rightarrow> unit action" where
  "delete_missing_rows [] current_state = ret ()"
| "delete_missing_rows ((path_str, info) # rest) current_state =
     (if path_str \<notin> set (map fst current_state)
      then andthen (attempt (delete_row (fst info) (snd info)))
             (\<lambda>_. delete_missing_rows rest current_state)
      else delete_missing_rows rest current_state)"

text \<open>
  \<open>run_once\<close> on an open connection: the result is the snapshot that is written to
  the state file, or the exception that leaves the file as it was.
\<close>

definition run_once :: "snapshot \<Rightarrow> source_file list \<Rightarrow> bool \<Rightarrow> conn \<Rightarrow> (exc + snapshot) \<times> conn" where
  "run_once prev_state files delete_missing c =
     (case andthen (ingest_files files []) (\<lambda>current_state.
             andthen (if delete_missing then delete_missing_rows prev_state current_state else ret ())
               (\<lambda>_. ret current_state)) c of
        (r, c') \<Rightarrow> (r, close c'))"

section \<open>Example data\<close>

text \<open>
  A remote listing with two documents, a target table without a key and one with
  \<open>Identifier\<close> as its key, and the connections of the two ingesters (the remote-feed
  ingester commits by hand, the filesystem ingester connects with autocommit).
\<close>

definition demo_doc :: pydict where
  "demo_doc = [(''FileTypeIdentifier'', JStr FILE_TYPE_IDENTIFIER), (''Schema_ID'', JStr ''T1''),
               (''schemaid'', JStr ''T2''), (''Value'', JInt 42)]"

definition demo_plain :: pydict where
  "demo_plain = [(''FileTypeIdentifier'', JStr FILE_TYPE_IDENTIFIER), (''Value'', JInt 42)]"

definition demo_env :: env where
  "demo_env =
     \<lparr>http_get = (\<lambda>u. if u = ''http://dav/a/b.json'' then Inr (JObj demo_doc)
                      else if u = ''http://dav/a/c.json'' then Inr (JObj demo_plain)
                      else Inl (TransportError ''404 Client Error'')),
      file_url = (\<lambda>h. ''http://dav'' @ h),
      schema_path = (\<lambda>s. ''/schemas/'' @ s @ ''.json''),
      schema_exists = (\<lambda>s. s = ''T1''),
      load_schema = (\<lambda>s. Inr (JObj [])),
      draft4_errors = (\<lambda>s p. Inr []),
      draft7_errors = (\<lambda>s p. Inr [])\<rparr>"

definition demo_table :: table where
  "demo_table = \<lparr>t_columns = [''Identifier'', ''DocumentLocation'', ''Value''],
                  t_unique = [], t_rows = []\<rparr>"

definition keyed_table :: table where
  "keyed_table = \<lparr>t_columns = [''Identifier'', ''DocumentLocation'', ''Value''],
                   t_unique = [[''Identifier'']], t_rows = []\<rparr>"

definition demo_conn :: conn where
  "demo_conn = \<lparr>tables = [(''T1'', demo_table)], ingest_state = [],
                 saved_tables = [(''T1'', demo_table)], saved_state = [],
                 autocommit = False, clock = 0, faults = [], trace = []\<rparr>"

definition fs_conn :: conn where
  "fs_conn = \<lparr>tables = [(''T1'', keyed_table)], ingest_state = [],
               saved_tables = [(''T1'', keyed_table)], saved_state = [],
               autocommit = True, clock = 0, faults = [], trace = []\<rparr>"

definition entry_b :: entry where
  "entry_b = \<lparr>href = ''/a/b.json'', etag = ''e1'', last_modified = ''Mon'', content_length = ''10'',
               is_collection = False\<rparr>"

definition entry_c :: entry where
  "entry_c = \<lparr>href = ''/a/c.json'', etag = ''e2'', last_modified = ''Tue'', content_length = ''10'',
               is_collection = False\<rparr>"

definition file_b :: source_file where
  "file_b = \<lparr>f_path = ''/a/b.json'',
             f_content = Inr (JObj [(''SchemaID'', JStr ''T1''), (''Value'', JInt 42)])\<rparr>"

text \<open>A dict without one of its keys.\<close>

definition without :: "string \<Rightarrow> pydict \<Rightarrow> pydict" where
  "without k d = filter (\<lambda>kv. fst kv \<noteq> k) d"

text \<open>A computation only adds to the log.\<close>

definition extends :: "'a action \<Rightarrow> bool" where
  "extends m = (\<forall>c. \<exists>es. trace (snd (m c)) = trace c @ es)"

text \<open>A connection whose state table knows both entries: one processed, one skipped.\<close>

definition state_conn :: conn where
  "state_conn = demo_conn\<lparr>
     ingest_state :=
       [(''/a/b.json'', result_row entry_b ''T1'' ''b'' ''ok'' None),
        (''/a/c.json'', skip_row entry_c ''skipped'' ''missing SchemaID'')],
     saved_state :=
       [(''/a/b.json'', result_row entry_b ''T1'' ''b'' ''ok'' None),
        (''/a/c.json'', skip_row entry_c ''skipped'' ''missing SchemaID'')]\<rparr>"

text \<open>A schema directory with one schema and a validator that reports four violations.\<close>

definition demo_violations :: "violation list" where
  "demo_violations =
     [([Key ''b''], ''b is not of type integer''),
      ([Key ''a'', Idx 1], ''1 is not of type string''),
      ([Key ''a'', Idx 0], ''0 is not of type string''),
      ([Key ''a'', Idx 0], ''0 is not one of the allowed values'')]"

definition checking_env :: env where
  "checking_env = demo_env\<lparr>draft7_errors := (\<lambda>s p. Inr demo_violations)\<rparr>"

text \<open>A document with a list value and keys in another case than the columns.\<close>

definition wide_doc :: pydict where
  "wide_doc = [(''SchemaID'', JStr ''T1''), (''VALUE'', JInt 41), (''value'', JInt 42),
               (''tags'', JArr [JStr ''a'', JInt 1]), (''Note'', JNull)]"

definition wide_columns :: "string list" where
  "wide_columns = [''Identifier'', ''DocumentLocation'', ''Value'', ''Tags'', ''Note'', ''Extra'']"

text \<open>The table of the examples with one row, and a connection that holds it.\<close>

definition filled_table :: table where
  "filled_table = demo_table\<lparr>t_rows := [[JStr ''b'', JStr ''http://dav/a/b.json'', JInt 7]]\<rparr>"

definition filled_conn :: conn where
  "filled_conn = demo_conn\<lparr>tables := [(''T1'', filled_table)], saved_tables := [(''T1'', filled_table)]\<rparr>"

text \<open>
  Connections on which statements fail: the seventh call of a scan (the \<open>INSERT\<close> of
  the first document), and that call together with the next one (the rollback).
\<close>

definition failing_conn :: conn where
  "failing_conn = demo_conn\<lparr>faults := [(6, ''Lock wait timeout exceeded'')]\<rparr>"

definition broken_conn :: conn where
  "broken_conn = demo_conn\<lparr>faults := [(6, ''MySQL server has gone away''),
                                        (7, ''MySQL server has gone away'')]\<rparr>"

text \<open>
  Relations between the connection before and after a computation: the tables keep
  their names and columns (and, under autocommit, every change is committed at once);
  and, in addition, no table gains a row.
\<close>

definition same_schema :: "conn \<Rightarrow> conn \<Rightarrow> bool" where
  "same_schema c c' =
     (faults c' = faults c \<and> autocommit c' = autocommit c
      \<and> map (\<lambda>nt. (fst nt, t_columns (snd nt))) (tables c')
          = map (\<lambda>nt. (fst nt, t_columns (snd nt))) (tables c)
      \<and> (autocommit c \<and> saved_tables c = tables c \<longrightarrow> saved_tables c' = tables c'))"

definition rows_shrink :: "conn \<Rightarrow> conn \<Rightarrow> bool" where
  "rows_shrink c c' =
     (same_schema c c'
      \<and> (\<forall>n t t'. map_of (tables c) n = Some t \<and> map_of (tables c') n = Some t'
            \<longrightarrow> set (t_rows t') \<subseteq> set (t_rows t)))"

definition keeps :: "(conn \<Rightarrow> conn \<Rightarrow> bool) \<Rightarrow> 'a action \<Rightarrow> bool" where
  "keeps R m = (\<forall>c. R c (snd (m c)))"

text \<open>A previous snapshot with two paths, and a table that holds the rows of both.\<close>

definition two_rows :: table where
  "two_rows = keyed_table\<lparr>t_rows := [[JStr ''a'', JStr ''/d/a.json'', JInt 1],
                                       [JStr ''b'', JStr ''/d/b.json'', JInt 2]]\<rparr>"

definition two_conn :: conn where
  "two_conn = fs_conn\<lparr>tables := [(''T1'', two_rows)], saved_tables := [(''T1'', two_rows)]\<rparr>"

definition two_paths :: snapshot where
  "two_paths = [(''/d/a.json'', ''T1'', JStr ''a''), (''/d/b.json'', ''T1'', JStr ''b'')]"

definition file_a :: source_file where
  "file_a = \<lparr>f_path = ''/d/a.json'',
             f_content = Inr (JObj [(''SchemaID'', JStr ''T1''), (''Value'', JInt 1)])\<rparr>"

text \<open>The requests in a list of events, in their order.\<close>

fun requests :: "event list \<Rightarrow> string list" where
  "requests [] = []"
| "requests (HttpGet u # es) = u # requests es"
| "requests (ev # es) = requests es"

text \<open>
  A computation on the connection alone: the fault schedule stays as it is, and the
  events added to the log hold no request.
\<close>

definition quietly :: "conn \<Rightarrow> conn \<Rightarrow> bool" where
  "quietly c c' = (faults c' = faults c \<and> (\<exists>es. trace c' = trace c @ es \<and> requests es = []))"

text \<open>
  The rule of the specification for an entry that needs no processing: the state
  table has a row for its path with the entry's etag and last-modified text and with
  the status \<open>ok\<close>.
\<close>

definition recorded_ok :: "(string \<times> state_row) list \<Rightarrow> entry \<Rightarrow> bool" where
  "recorded_ok rows it =
     (case map_of rows (href it) of
        None \<Rightarrow> False
      | Some row \<Rightarrow> s_etag row = Some (etag it) \<and> s_last_modified row = Some (last_modified it)
                   \<and> s_status row = Some ''ok'')"

text \<open>
  The state row that the guarded step of the loop leaves for an entry, given what
  \<open>process_file\<close> returned or raised (lines 395 to 422).
\<close>

definition outcome_row :: "entry \<Rightarrow> string \<Rightarrow> string \<Rightarrow> exc + bool \<times> string \<Rightarrow> state_row" where
  "outcome_row it schema_id identifier r =
     (case r of
        Inr (ok, msg) \<Rightarrow>
          result_row it schema_id identifier (if ok then ''ok'' else ''skipped'')
            (if ok then None else Some msg)
      | Inl x \<Rightarrow> result_row it schema_id identifier ''error'' (Some (exc_text x)))"

text \<open>A step of the loop returned, and the state table has this row for the path.\<close>

definition writes_row :: "(exc + unit) \<times> conn \<Rightarrow> string \<Rightarrow> state_row \<Rightarrow> bool" where
  "writes_row rc p row = (fst rc = Inr () \<and> map_of (ingest_state (snd rc)) p = Some row)"

text \<open>
  A connection whose state table knows both entries with their present etag and
  last-modified text, one with the status \<open>error\<close> and one with \<open>skipped\<close>; and a
  server whose documents are JSON lists.
\<close>

definition retry_conn :: conn where
  "retry_conn = demo_conn\<lparr>
     ingest_state :=
       [(''/a/b.json'', result_row entry_b ''T1'' ''b'' ''error'' (Some ''Lock wait timeout exceeded'')),
        (''/a/c.json'', skip_row entry_c ''skipped'' ''missing SchemaID'')],
     saved_state :=
       [(''/a/b.json'', result_row entry_b ''T1'' ''b'' ''error'' (Some ''Lock wait timeout exceeded'')),
        (''/a/c.json'', skip_row entry_c ''skipped'' ''missing SchemaID'')]\<rparr>"

definition list_env :: env where
  "list_env = demo_env\<lparr>http_get := (\<lambda>u. Inr (JArr [JInt 1]))\<rparr>"

text \<open>An entry that the server does not have, and a server whose documents lack the marker.\<close>

definition entry_x :: entry where
  "entry_x = \<lparr>href = ''/a/x.json'', etag = ''e3'', last_modified = ''Wed'', content_length = ''10'',
               is_collection = False\<rparr>"

definition bare_env :: env where
  "bare_env = demo_env\<lparr>http_get := (\<lambda>u. Inr (JObj [(''SchemaID'', JStr ''T1'')]))\<rparr>"

text \<open>The same connection, on which the fourth call fails.\<close>

definition lost_conn :: conn where
  "lost_conn = retry_conn\<lparr>faults := [(3, ''MySQL server has gone away'')]\<rparr>"

text \<open>A document that names the identifier with \<open>null\<close>, and one with a key outside ASCII.\<close>

definition null_doc :: pydict where
  "null_doc = [(''identifier'', JNull), (''Value'', JInt 1)]"

definition accent_doc :: pydict where
  "accent_doc = [([CHR 0xE9, CHR ''t'', CHR 0xE9], JInt 3)]"

text \<open>
  Documents that name the identifier with a false value: \<open>null\<close> on the server and in
  a file, and \<open>0\<close> in a file.
\<close>

definition falsy_doc :: pydict where
  "falsy_doc = [(''FileTypeIdentifier'', JStr FILE_TYPE_IDENTIFIER), (''SchemaID'', JStr ''T1''),
                (''Identifier'', JNull), (''Value'', JInt 42)]"

definition falsy_env :: env where
  "falsy_env = demo_env\<lparr>http_get := (\<lambda>u. Inr (JObj falsy_doc))\<rparr>"

definition file_n :: source_file where
  "file_n = \<lparr>f_path = ''/d/n.json'',
             f_content = Inr (JObj [(''SchemaID'', JStr ''T1''), (''Identifier'', JNull),
                                    (''Value'', JInt 5)])\<rparr>"

definition file_z :: source_file where
  "file_z = \<lparr>f_path = ''/d/z.json'',
             f_content = Inr (JObj [(''SchemaID'', JStr ''T1''), (''Identifier'', JInt 0),
                                    (''Value'', JInt 5)])\<rparr>"

text \<open>The connection of the two rows, on which the fifth call fails.\<close>

definition stuck_conn :: conn where
  "stuck_conn = two_conn\<lparr>faults := [(4, ''Lock wait timeout exceeded'')]\<rparr>"

text \<open>A connection in autocommit mode whose table has no key.\<close>

definition plain_conn :: conn where
  "plain_conn = fs_conn\<lparr>tables := [(''T1'', demo_table)], saved_tables := [(''T1'', demo_table)]\<rparr>"

section \<open>Sequencing and the log\<close>

lemma andthen_ret [simp]: "andthen (ret x) f c = f x c"
  by (simp add: andthen_def ret_def)

lemma andthen_raise [simp]: "andthen (raise x) f c = (Inl x, c)"
  by (simp add: andthen_def raise_def)

lemma andthen_Inr: "m c = (Inr x, c') \<Longrightarrow> andthen m f c = f x c'"
  by (simp add: andthen_def)

lemma andthen_Inl: "m c = (Inl x, c') \<Longrightarrow> andthen m f c = (Inl x, c')"
  by (simp add: andthen_def)

lemma issue_ok:
  "map_of (faults c) (clock c) = None \<Longrightarrow>
   issue ev c = (Inr (), c\<lparr>clock := clock c + 1, trace := trace c @ [ev]\<rparr>)"
  by (simp add: issue_def)

lemma issue_fail:
  "map_of (faults c) (clock c) = Some m \<Longrightarrow>
   issue ev c = (Inl (DatabaseError m), c\<lparr>clock := clock c + 1, trace := trace c @ [ev]\<rparr>)"
  by (simp add: issue_def)

section \<open>SchemaID extraction\<close>

lemma get_schema_id_first:
  "lower (remove_underscores k) = ''schemaid'' \<Longrightarrow>
   \<forall>kv\<in>set pre. lower (remove_underscores (fst kv)) \<noteq> ''schemaid'' \<Longrightarrow>
   get_schema_id (pre @ (k, v) # post) = Some (py_str v)"
  by (induction pre) auto

lemma get_schema_id_none:
  "\<forall>kv\<in>set d. lower (remove_underscores (fst kv)) \<noteq> ''schemaid'' \<Longrightarrow> get_schema_id d = None"
  by (induction d) auto

lemma download_ok:
  "http_get e (file_url e (href it)) = Inr data \<Longrightarrow>
   download e it c = (Inr (Some data), c\<lparr>trace := trace c @ [HttpGet (file_url e (href it))]\<rparr>)"
  by (simp add: download_def try_except_def andthen_def fetch_def ret_def)

lemma record_skip_trace:
  "\<exists>es. trace (snd (record_skip it st err c))
          = trace c @ Exec (ReplaceState (href it) (skip_row it st err)) # es
        \<and> set es \<subseteq> {Commit}"
  by (auto simp: record_skip_def replace_state_def andthen_def issue_def commit_def
      store_state_def Let_def split: option.splits)

lemma record_skip_tables: "tables (snd (record_skip it st err c)) = tables c"
  by (auto simp: record_skip_def replace_state_def andthen_def issue_def commit_def
      store_state_def Let_def split: option.splits)

lemma record_skip_ok:
  "faults c = [] \<Longrightarrow> fst (record_skip it st err c) = Inr () \<and>
     map_of (ingest_state (snd (record_skip it st err c))) (href it) = Some (skip_row it st err)"
  by (auto simp: record_skip_def replace_state_def andthen_def issue_def commit_def
      store_state_def Let_def update_conv' split: option.splits)

lemma scan_item_missing:
  assumes none: "\<forall>kv\<in>set d. lower (remove_underscores (fst kv)) \<noteq> ''schemaid''"
    and get: "http_get e (file_url e (href it)) = Inr (JObj d)"
    and marker: "dict_get d ''FileTypeIdentifier'' = JStr FILE_TYPE_IDENTIFIER"
    and ch: "\<not> unchanged sm it"
  shows "scan_item e al sm it c
         = record_skip it ''skipped'' ''missing SchemaID''
             (c\<lparr>trace := trace c @ [HttpGet (file_url e (href it))]\<rparr>)"
  using get_schema_id_none[OF none] get marker ch
  by (simp add: scan_item_def download_ok andthen_def)

text \<open>
  C5.  \<open>get_schema_id\<close> walks the keys of the document in their order, compares each
  key without its underscores and in lower case with \<open>schemaid\<close>, and returns
  \<open>str\<close> of the value of the first key that matches: whatever stands before that key
  (\<open>pre\<close>) does not match, and whatever stands after it (\<open>post\<close>) plays no part.  When
  no key matches, the result is \<open>None\<close>; the remote-feed ingester then records the
  entry as skipped with the message \<open>missing SchemaID\<close> and issues no statement on a
  target table (the request, the state row and its commit are all it does, and the
  tables stay as they were), and the filesystem ingester goes on to the next file
  without a statement and without an entry in the snapshot.
\<close>

theorem schema_id_first_match:
  "(lower (remove_underscores k) = ''schemaid''
      \<and> (\<forall>kv\<in>set pre. lower (remove_underscores (fst kv)) \<noteq> ''schemaid'')
    \<longrightarrow> get_schema_id (pre @ (k, v) # post) = Some (py_str v))
   \<and> ((\<forall>kv\<in>set d. lower (remove_underscores (fst kv)) \<noteq> ''schemaid'')
    \<longrightarrow> get_schema_id d = None
      \<and> (http_get e (file_url e (href it)) = Inr (JObj d)
           \<and> dict_get d ''FileTypeIdentifier'' = JStr FILE_TYPE_IDENTIFIER
           \<and> \<not> unchanged sm it
         \<longrightarrow> (\<exists>es. emitted c (snd (scan_item e al sm it c))
                     = HttpGet (file_url e (href it))
                       # Exec (ReplaceState (href it) (skip_row it ''skipped'' ''missing SchemaID'')) # es
                   \<and> set es \<subseteq> {Commit})
             \<and> tables (snd (scan_item e al sm it c)) = tables c
             \<and> (faults c = []
                \<longrightarrow> fst (scan_item e al sm it c) = Inr ()
                  \<and> map_of (ingest_state (snd (scan_item e al sm it c))) (href it)
                      = Some (skip_row it ''skipped'' ''missing SchemaID'')))
      \<and> (path_name (f_path f) \<noteq> ''.db_ingest_state.json'' \<and> f_content f = Inr (JObj d)
         \<longrightarrow> ingest_files (f # fs) cur c = ingest_files fs cur c))"
proof (intro conjI impI)
  assume "lower (remove_underscores k) = ''schemaid''
      \<and> (\<forall>kv\<in>set pre. lower (remove_underscores (fst kv)) \<noteq> ''schemaid'')"
  then show "get_schema_id (pre @ (k, v) # post) = Some (py_str v)"
    by (simp add: get_schema_id_first)
next
  assume none: "\<forall>kv\<in>set d. lower (remove_underscores (fst kv)) \<noteq> ''schemaid''"
  then show g: "get_schema_id d = None" by (rule get_schema_id_none)
  {
    assume "path_name (f_path f) \<noteq> ''.db_ingest_state.json'' \<and> f_content f = Inr (JObj d)"
    with g show "ingest_files (f # fs) cur c = ingest_files fs cur c" by simp
  }
  assume h: "http_get e (file_url e (href it)) = Inr (JObj d)
           \<and> dict_get d ''FileTypeIdentifier'' = JStr FILE_TYPE_IDENTIFIER
           \<and> \<not> unchanged sm it"
  let ?c1 = "c\<lparr>trace := trace c @ [HttpGet (file_url e (href it))]\<rparr>"
  have eq: "scan_item e al sm it c = record_skip it ''skipped'' ''missing SchemaID'' ?c1"
    using scan_item_missing[OF none] h by blast
  obtain es where es: "trace (snd (record_skip it ''skipped'' ''missing SchemaID'' ?c1))
      = trace ?c1 @ Exec (ReplaceState (href it) (skip_row it ''skipped'' ''missing SchemaID'')) # es"
      "set es \<subseteq> {Commit}"
    using record_skip_trace by blast
  show "\<exists>es. emitted c (snd (scan_item e al sm it c))
                     = HttpGet (file_url e (href it))
                       # Exec (ReplaceState (href it) (skip_row it ''skipped'' ''missing SchemaID'')) # es
                   \<and> set es \<subseteq> {Commit}"
    using es by (simp add: eq emitted_def)
  show "tables (snd (scan_item e al sm it c)) = tables c"
    by (simp add: eq record_skip_tables)
  {
    assume "faults c = []"
    then have "faults ?c1 = []" by simp
    from record_skip_ok[OF this]
    show "fst (scan_item e al sm it c) = Inr ()"
      and "map_of (ingest_state (snd (scan_item e al sm it c))) (href it)
                      = Some (skip_row it ''skipped'' ''missing SchemaID'')"
      by (simp_all add: eq)
  }
qed

theorem schema_id_first_match_witness:
  "get_schema_id demo_doc = Some ''T1''
   \<and> get_schema_id demo_plain = None
   \<and> emitted demo_conn (snd (scan_item demo_env None [] entry_c demo_conn))
       = [HttpGet ''http://dav/a/c.json'',
          Exec (ReplaceState ''/a/c.json'' (skip_row entry_c ''skipped'' ''missing SchemaID'')), Commit]
   \<and> tables (snd (scan_item demo_env None [] entry_c demo_conn)) = tables demo_conn
   \<and> fst (scan_item demo_env None [] entry_c demo_conn) = Inr ()
   \<and> map_of (ingest_state (snd (scan_item demo_env None [] entry_c demo_conn))) ''/a/c.json''
       = Some (skip_row entry_c ''skipped'' ''missing SchemaID'')
   \<and> ingest_files [\<lparr>f_path = ''/a/c.json'', f_content = Inr (JObj demo_plain)\<rparr>] [] demo_conn
       = (Inr [], demo_conn)"
proof -
  have split: "demo_doc = [(''FileTypeIdentifier'', JStr FILE_TYPE_IDENTIFIER)] @ (''Schema_ID'', JStr ''T1'')
                 # [(''schemaid'', JStr ''T2''), (''Value'', JInt 42)]"
    by (simp add: demo_doc_def)
  have h1: "lower (remove_underscores ''Schema_ID'') = ''schemaid''
     \<and> (\<forall>kv\<in>set [(''FileTypeIdentifier'', JStr FILE_TYPE_IDENTIFIER)].
           lower (remove_underscores (fst kv)) \<noteq> ''schemaid'')"
    by code_simp
  have h2: "\<forall>kv\<in>set demo_plain. lower (remove_underscores (fst kv)) \<noteq> ''schemaid''"
    by code_simp
  have h3: "http_get demo_env (file_url demo_env (href entry_c)) = Inr (JObj demo_plain)
     \<and> dict_get demo_plain ''FileTypeIdentifier'' = JStr FILE_TYPE_IDENTIFIER
     \<and> \<not> unchanged [] entry_c"
    by code_simp
  have h4: "faults demo_conn = []" by (simp add: demo_conn_def)
  have h5: "path_name (f_path \<lparr>f_path = ''/a/c.json'', f_content = Inr (JObj demo_plain)\<rparr>)
       \<noteq> ''.db_ingest_state.json''
     \<and> f_content \<lparr>f_path = ''/a/c.json'', f_content = Inr (JObj demo_plain)\<rparr> = Inr (JObj demo_plain)"
    by code_simp
  note t = schema_id_first_match[of "''Schema_ID''" "[(''FileTypeIdentifier'', JStr FILE_TYPE_IDENTIFIER)]"
      "JStr ''T1''" "[(''schemaid'', JStr ''T2''), (''Value'', JInt 42)]" demo_plain demo_env entry_c
      "[]" demo_conn None "\<lparr>f_path = ''/a/c.json'', f_content = Inr (JObj demo_plain)\<rparr>" "[]" "[]"]
  have a: "get_schema_id demo_doc = Some ''T1''" using t h1 by (simp add: split)
  have b: "get_schema_id demo_plain = None" using t h2 by blast
  have c: "tables (snd (scan_item demo_env None [] entry_c demo_conn)) = tables demo_conn"
    using t h2 h3 by blast
  have d: "fst (scan_item demo_env None [] entry_c demo_conn) = Inr ()
     \<and> map_of (ingest_state (snd (scan_item demo_env None [] entry_c demo_conn))) (href entry_c)
       = Some (skip_row entry_c ''skipped'' ''missing SchemaID'')"
    using t h2 h3 h4 by blast
  have e: "ingest_files [\<lparr>f_path = ''/a/c.json'', f_content = Inr (JObj demo_plain)\<rparr>] [] demo_conn
       = ingest_files [] [] demo_conn"
    using t h2 h5 by blast
  have f: "emitted demo_conn (snd (scan_item demo_env None [] entry_c demo_conn))
       = [HttpGet ''http://dav/a/c.json'',
          Exec (ReplaceState ''/a/c.json'' (skip_row entry_c ''skipped'' ''missing SchemaID'')), Commit]"
    by code_simp
  show ?thesis using a b c d e f by (simp add: entry_c_def ret_def)
qed

section \<open>The identifier of a document\<close>

lemma dict_get_without: "dict_get (without k d) k' = (if k' = k then JNull else dict_get d k')"
  by (induction d) (auto simp: without_def dict_get_def)

lemma dec_nat_nonempty: "dec_nat n \<noteq> []"
  by (subst dec_nat.simps) simp

lemma py_repr_nonempty: "py_repr v \<noteq> []"
  by (cases v) (auto simp: dec_int_def dec_nat_nonempty repr_str_def Let_def)

lemma py_str_truthy: "truthy v \<Longrightarrow> py_str v \<noteq> []"
  by (cases v) (auto simp: py_repr_nonempty simp del: py_repr.simps)

section \<open>The default-fill scenario\<close>

text \<open>
  C9.  The table \<open>T1\<close> has the columns \<open>Identifier\<close>, \<open>DocumentLocation\<close> and
  \<open>Value\<close>, and the file \<open>/a/b.json\<close> holds \<open>{"SchemaID": "T1", "Value": 42}\<close>.
  One run of the filesystem ingester issues the merge-write statement with the values
  \<open>"b"\<close> (the stem of the file name), \<open>"/a/b.json"\<close> (the path) and \<open>42\<close>; the table
  then holds that row, and the snapshot records the table and the identifier of the path.
\<close>

theorem scenario_default_fill:
  "fst (run_once [] [file_b] False fs_conn) = Inr [(''/a/b.json'', ''T1'', JStr ''b'')]
   \<and> trace (snd (run_once [] [file_b] False fs_conn))
       = [Exec (ShowTablesLike ''T1''), Exec (ShowColumns ''T1''),
          Exec (UpsertRow ''T1'' [''Identifier'', ''DocumentLocation'', ''Value'']
                  [JStr ''b'', JStr ''/a/b.json'', JInt 42]),
          Close]
   \<and> map (\<lambda>nt. (fst nt, t_rows (snd nt))) (tables (snd (run_once [] [file_b] False fs_conn)))
       = [(''T1'', [[JStr ''b'', JStr ''/a/b.json'', JInt 42]])]"
  by code_simp

section \<open>The log only grows\<close>

lemma extendsI: "(\<And>c. \<exists>es. trace (snd (m c)) = trace c @ es) \<Longrightarrow> extends m"
  by (simp add: extends_def)

lemma extendsD: "extends m \<Longrightarrow> \<exists>es. trace (snd (m c)) = trace c @ es"
  by (simp add: extends_def)

lemma extends_ret [simp]: "extends (ret x)"
  by (simp add: extends_def ret_def)

lemma extends_raise [simp]: "extends (raise x)"
  by (simp add: extends_def raise_def)

lemma extends_issue [simp]: "extends (issue ev)"
  by (auto simp: extends_def issue_def Let_def split: option.splits)

lemma extends_andthen:
  assumes "extends m" and "\<And>x. extends (f x)"
  shows "extends (andthen m f)"
proof (rule extendsI)
  fix c
  obtain r c1 where m: "m c = (r, c1)" by (cases "m c")
  obtain es1 where e1: "trace c1 = trace c @ es1" using extendsD[OF assms(1), of c] m by auto
  show "\<exists>es. trace (snd (andthen m f c)) = trace c @ es"
  proof (cases r)
    case (Inl x)
    then show ?thesis using m e1 by (simp add: andthen_def)
  next
    case (Inr x)
    obtain es2 where "trace (snd (f x c1)) = trace c1 @ es2" using extendsD[OF assms(2)] by blast
    then show ?thesis using m e1 Inr by (simp add: andthen_def)
  qed
qed

lemma extends_try_except:
  assumes "extends m" and "\<And>x. extends (h x)"
  shows "extends (try_except m h)"
proof (rule extendsI)
  fix c
  obtain r c1 where m: "m c = (r, c1)" by (cases "m c")
  obtain es1 where e1: "trace c1 = trace c @ es1" using extendsD[OF assms(1), of c] m by auto
  show "\<exists>es. trace (snd (try_except m h c)) = trace c @ es"
  proof (cases r)
    case (Inr x)
    then show ?thesis using m e1 by (simp add: try_except_def)
  next
    case (Inl x)
    obtain es2 where "trace (snd (h x c1)) = trace c1 @ es2" using extendsD[OF assms(2)] by blast
    then show ?thesis using m e1 Inl by (simp add: try_except_def)
  qed
qed

lemma extends_quiet:
  assumes "\<And>u c. trace (snd (g u c)) = trace c"
  shows "extends (andthen (issue ev) g)"
proof (rule extends_andthen)
  show "extends (issue ev)" by simp
  show "extends (g x)" for x by (simp add: extends_def assms)
qed

lemma extends_commit [simp]: "extends commit"
  unfolding commit_def by (rule extends_quiet) simp

lemma extends_rollback [simp]: "extends rollback"
  unfolding rollback_def by (rule extends_quiet) simp

lemma extends_table_exists [simp]: "extends (table_exists n)"
  unfolding table_exists_def by (rule extends_quiet) simp

lemma extends_get_columns [simp]: "extends (get_columns n)"
  unfolding get_columns_def by (rule extends_quiet) (simp split: option.splits)

lemma extends_select_for_update [simp]: "extends (select_for_update n col v)"
  unfolding select_for_update_def by (rule extends_quiet) (simp split: option.splits)

lemma extends_insert_row [simp]: "extends (insert_row n cols vs)"
  unfolding insert_row_def by (rule extends_quiet) (simp add: store_table_def Let_def split: option.splits)

lemma extends_upsert_row [simp]: "extends (upsert_row n cols vs)"
  unfolding upsert_row_def by (rule extends_quiet) (simp add: store_table_def Let_def split: option.splits)

lemma extends_delete_rows [simp]: "extends (delete_rows n col v)"
  unfolding delete_rows_def by (rule extends_quiet) (simp add: store_table_def Let_def split: option.splits)

lemma extends_replace_state [simp]: "extends (replace_state p r)"
  unfolding replace_state_def by (rule extends_quiet) (simp add: store_state_def Let_def)

lemma extends_select_state [simp]: "extends (select_state ps)"
  unfolding select_state_def by (rule extends_quiet) simp

lemma extends_record_skip [simp]: "extends (record_skip it st err)"
  unfolding record_skip_def by (intro extends_andthen) simp_all

lemma extends_record_result [simp]: "extends (record_result it s i st err)"
  unfolding record_result_def by (intro extends_andthen) simp_all

lemma extends_insert_if_absent [simp]: "extends (insert_if_absent url d s i cols)"
  unfolding insert_if_absent_def by (intro extends_andthen) (simp_all add: extends_andthen)

lemma extends_checked_write [simp]: "extends (checked_write url d s i)"
  unfolding checked_write_def by (intro extends_andthen) (simp_all add: extends_andthen)

lemma extends_process_file [simp]: "extends (process_file e url d s i al)"
  unfolding process_file_def by (simp split: sum.splits option.splits)

lemma extends_process_and_record [simp]: "extends (process_and_record e al it d s i)"
  unfolding process_and_record_def by (intro extends_try_except extends_andthen) simp_all

lemma download_trace:
  "\<exists>es. trace (snd (download e it c)) = trace c @ HttpGet (file_url e (href it)) # es"
proof (cases "http_get e (file_url e (href it))")
  case (Inr data)
  then show ?thesis by (simp add: download_ok)
next
  case (Inl x)
  let ?c1 = "c\<lparr>trace := trace c @ [HttpGet (file_url e (href it))]\<rparr>"
  have "download e it c = andthen (record_skip it ''error'' (''download/parse error: '' @ exc_text x)) (\<lambda>_. ret None) ?c1"
    using Inl by (simp add: download_def try_except_def andthen_def fetch_def)
  moreover have "extends (andthen (record_skip it ''error'' (''download/parse error: '' @ exc_text x)) (\<lambda>_. ret (None :: json option)))"
    by (intro extends_andthen) simp_all
  ultimately show ?thesis using extendsD[of _ ?c1] by fastforce
qed

lemma scan_item_changed_trace:
  assumes "\<not> unchanged sm it"
  shows "\<exists>es. trace (snd (scan_item e al sm it c)) = trace c @ HttpGet (file_url e (href it)) # es"
proof -
  let ?k = "(\<lambda>got.
          case got of
            None \<Rightarrow> ret ()
          | Some (JObj d) \<Rightarrow>
              if dict_get d ''FileTypeIdentifier'' \<noteq> JStr FILE_TYPE_IDENTIFIER
              then record_skip it ''skipped'' ''invalid FileTypeIdentifier''
              else
                (case get_schema_id d of
                   None \<Rightarrow> record_skip it ''skipped'' ''missing SchemaID''
                 | Some schema_id \<Rightarrow>
                     if schema_id = [] then record_skip it ''skipped'' ''missing SchemaID''
                     else process_and_record e al it d schema_id
                            (get_identifier d (stem (href it))))
          | Some _ \<Rightarrow> raise not_a_dict)"
  have k: "\<And>got. extends (?k got)"
    by (simp split: option.splits json.splits)
  have eq: "scan_item e al sm it c = andthen (download e it) ?k c"
    using assms by (simp add: scan_item_def)
  obtain r c1 where d: "download e it c = (r, c1)" by (cases "download e it c")
  obtain es1 where e1: "trace c1 = trace c @ HttpGet (file_url e (href it)) # es1"
    using download_trace[of e it c] d by auto
  show ?thesis
  proof (cases r)
    case (Inl x)
    then show ?thesis using d e1 by (simp add: eq andthen_def)
  next
    case (Inr got)
    obtain es2 where "trace (snd (?k got c1)) = trace c1 @ es2" using extendsD[OF k] by blast
    then show ?thesis using d e1 Inr unfolding eq by (simp add: andthen_def)
  qed
qed

section \<open>Change detection\<close>

lemma chunks_union: "0 < n \<Longrightarrow> \<Union>(set ` set (chunks_of n xs)) = set xs"
proof (induction n xs rule: chunks_of.induct)
  case (1 n xs)
  show ?case
  proof (cases "xs = []")
    case True
    then show ?thesis by (simp add: chunks_of.simps)
  next
    case False
    have "set (take n xs) \<union> set (drop n xs) = set xs"
      by (metis append_take_drop_id set_append)
    then show ?thesis using 1 False by (subst chunks_of.simps) simp
  qed
qed

lemma map_of_filter_keys:
  "map_of (filter (\<lambda>pr. fst pr \<in> S) xs) p = (if p \<in> S then map_of xs p else None)"
  by (induction xs) auto

lemma add_rows_lookup:
  "distinct (map fst rows) \<Longrightarrow>
   map_of (add_rows rows st) p
     = (case map_of rows p of Some r \<Rightarrow> Some (entry_of r) | None \<Rightarrow> map_of st p)"
proof (induction rows arbitrary: st)
  case Nil
  then show ?case by (simp add: add_rows_def)
next
  case (Cons a rows)
  have "add_rows (a # rows) st = add_rows rows (AList.update (fst a) (entry_of (snd a)) st)"
    by (simp add: add_rows_def)
  moreover have "map_of rows (fst a) = None" using Cons.prems
    by (simp add: map_of_eq_None_iff)
  ultimately show ?case using Cons by (cases a) (auto simp: update_conv' split: option.splits)
qed

lemma select_state_result:
  "select_state ps c = (Inr rows, c') \<Longrightarrow>
   rows = filter (\<lambda>pr. fst pr \<in> set ps) (ingest_state c) \<and> ingest_state c' = ingest_state c"
  by (auto simp: select_state_def andthen_def issue_def Let_def split: option.splits)

lemma load_chunks_lookup:
  "load_chunks chs st c = (Inr sm, c') \<Longrightarrow> distinct (map fst (ingest_state c)) \<Longrightarrow>
   map_of sm p
     = (if p \<in> \<Union>(set ` set chs) \<and> map_of (ingest_state c) p \<noteq> None
        then map_option entry_of (map_of (ingest_state c) p) else map_of st p)"
proof (induction chs arbitrary: st c)
  case Nil
  then show ?case by (simp add: ret_def)
next
  case (Cons ch chs)
  obtain r c1 where s: "select_state ch c = (r, c1)" by (cases "select_state ch c")
  with Cons.prems(1) obtain rows where r: "r = Inr rows"
    by (cases r) (auto simp: andthen_def)
  have rows: "rows = filter (\<lambda>pr. fst pr \<in> set ch) (ingest_state c)"
    and same: "ingest_state c1 = ingest_state c"
    using select_state_result s r by blast+
  have next_: "load_chunks chs (add_rows rows st) c1 = (Inr sm, c')"
    using Cons.prems(1) s r by (simp add: andthen_def)
  have d: "distinct (map fst rows)" using Cons.prems(2) rows by (simp add: distinct_map_filter)
  show ?case
    using Cons.IH[OF next_] Cons.prems(2) same add_rows_lookup[OF d, of st p]
    by (auto simp: rows map_of_filter_keys split: option.splits)
qed

lemma get_state_map_lookup:
  assumes "get_state_map paths c = (Inr sm, c')" and "distinct (map fst (ingest_state c))"
    and "p \<in> set paths"
  shows "map_of sm p = map_option entry_of (map_of (ingest_state c) p)"
proof -
  have "paths \<noteq> []" using assms(3) by auto
  then have "load_chunks (chunks_of 500 paths) [] c = (Inr sm, c')"
    using assms(1) by (simp add: get_state_map_def)
  from load_chunks_lookup[OF this assms(2), of p] show ?thesis
    using assms(3) by (simp add: chunks_union)
qed

section \<open>Schema validation\<close>

lemma elem_lt_less: "elem_lt x y \<noteq> None \<Longrightarrow> elem_lt x y = Some (x < y)"
  by (cases x; cases y) (auto simp: less_pelem_def)

lemma path_lt_less: "path_lt p q \<noteq> None \<Longrightarrow> path_lt p q = Some (p < q)"
proof (induction p q rule: path_lt.induct)
  case (4 x p y q)
  show ?case
  proof (cases "x = y")
    case True
    then show ?thesis using 4 by simp
  next
    case False
    then have "elem_lt x y = Some (x < y)" using 4(2) by (simp add: elem_lt_less)
    then show ?thesis using False by simp
  qed
qed simp_all

lemma sort_key_head:
  assumes "vs \<noteq> []"
  shows "\<exists>i<length vs. hd (sort_key fst vs) = vs ! i
           \<and> (\<forall>j<length vs. fst (vs ! i) \<le> fst (vs ! j))
           \<and> (\<forall>j<i. fst (vs ! j) \<noteq> fst (vs ! i))"
proof -
  let ?s = "sort_key fst vs"
  have ne: "?s \<noteq> []" using assms by (metis length_0_conv length_sort)
  then obtain v rest where s: "?s = v # rest" by (cases ?s) auto
  have "sorted (map fst ?s)" by simp
  then have le: "\<forall>w\<in>set ?s. fst v \<le> fst w" unfolding s by auto
  have "filter (\<lambda>x. fst x = fst v) ?s = filter (\<lambda>x. fst x = fst v) vs"
    by (rule sort_key_stable)
  then have "filter (\<lambda>x. fst x = fst v) vs = v # filter (\<lambda>x. fst x = fst v) rest"
    unfolding s by simp
  then obtain us ws where split: "vs = us @ v # ws" and before: "\<forall>u\<in>set us. fst u \<noteq> fst v"
    unfolding filter_eq_Cons_iff by blast
  have i: "length us < length vs" "vs ! length us = v" using split by auto
  have "\<forall>j<length vs. fst v \<le> fst (vs ! j)"
    using le by (metis nth_mem set_sort)
  moreover have "\<forall>j<length us. fst (vs ! j) \<noteq> fst v"
    using before split by (simp add: nth_append)
  ultimately show ?thesis using i s by auto
qed

text \<open>
  C6.  \<open>validate_payload\<close> takes all the violations that the validator yields for the
  document, sorts them by their path in the document and reports the message of the
  first one: no violation has a path that is smaller than the path of the reported one
  in Python's order on paths, and among the violations with that same path the reported
  one is the first that the validator yielded (the sort is stable).  Without a
  violation the result is \<open>None\<close>.  The result is a function of the schema and the
  document, through the list of violations.
\<close>

theorem first_violation_reported:
  assumes "load_schema e sid = Inr schema"
    and "build_validator schema = Inr d4"
    and "(if d4 then draft4_errors e else draft7_errors e) schema payload = Inr vs"
    and "\<forall>v\<in>set vs. \<forall>w\<in>set vs. path_lt (fst v) (fst w) \<noteq> None"
  shows "(vs = [] \<longrightarrow> validate_payload e sid payload = Inr None)
       \<and> (vs \<noteq> [] \<longrightarrow>
            (\<exists>i<length vs. validate_payload e sid payload = Inr (Some (snd (vs ! i)))
               \<and> (\<forall>j<length vs. path_lt (fst (vs ! j)) (fst (vs ! i)) = Some False)
               \<and> (\<forall>j<i. fst (vs ! j) \<noteq> fst (vs ! i))))"
proof -
  have cmp: "list_all (\<lambda>v. list_all (\<lambda>w. comparable (fst v) (fst w)) vs) vs"
    using assms(4) by (simp add: list_all_iff comparable_def)
  have sorted: "sorted_by_path vs = Inr (sort_key fst vs)"
    using cmp by (simp add: sorted_by_path_def)
  have val: "validate_payload e sid payload
      = (case sort_key fst vs of [] \<Rightarrow> Inr None | v # rest \<Rightarrow> Inr (Some (snd v)))"
    using assms(1-3) sorted by (simp add: validate_payload_def split: if_splits)
  show ?thesis
  proof (intro conjI impI)
    assume "vs = []"
    then show "validate_payload e sid payload = Inr None" by (simp add: val)
  next
    assume ne: "vs \<noteq> []"
    obtain i where i: "i < length vs" "hd (sort_key fst vs) = vs ! i"
      "\<forall>j<length vs. fst (vs ! i) \<le> fst (vs ! j)" "\<forall>j<i. fst (vs ! j) \<noteq> fst (vs ! i)"
      using sort_key_head[OF ne] by blast
    have "sort_key fst vs \<noteq> []" using ne by (metis length_0_conv length_sort)
    then have r: "validate_payload e sid payload = Inr (Some (snd (vs ! i)))"
      using i(2) by (cases "sort_key fst vs") (simp_all add: val)
    have "path_lt (fst (vs ! j)) (fst (vs ! i)) = Some False" if "j < length vs" for j
    proof -
      have "path_lt (fst (vs ! j)) (fst (vs ! i)) \<noteq> None"
        using assms(4) that i(1) by (meson nth_mem)
      then have "path_lt (fst (vs ! j)) (fst (vs ! i)) = Some (fst (vs ! j) < fst (vs ! i))"
        by (rule path_lt_less)
      then show ?thesis using i(3) that by (simp add: not_less)
    qed
    then show "\<exists>i<length vs. validate_payload e sid payload = Inr (Some (snd (vs ! i)))
               \<and> (\<forall>j<length vs. path_lt (fst (vs ! j)) (fst (vs ! i)) = Some False)
               \<and> (\<forall>j<i. fst (vs ! j) \<noteq> fst (vs ! i))"
      using i(1,4) r by blast
  qed
qed

theorem first_violation_reported_witness:
  "validate_payload checking_env ''T1'' (JObj demo_plain) = Inr (Some ''0 is not of type string'')
   \<and> (\<exists>i<length demo_violations.
         validate_payload checking_env ''T1'' (JObj demo_plain)
           = Inr (Some (snd (demo_violations ! i)))
         \<and> (\<forall>j<length demo_violations.
               path_lt (fst (demo_violations ! j)) (fst (demo_violations ! i)) = Some False)
         \<and> (\<forall>j<i. fst (demo_violations ! j) \<noteq> fst (demo_violations ! i)))"
proof -
  have h1: "load_schema checking_env ''T1'' = Inr (JObj [])" by code_simp
  have h2: "build_validator (JObj []) = Inr False" by code_simp
  have h3: "(if False then draft4_errors checking_env else draft7_errors checking_env)
              (JObj []) (JObj demo_plain) = Inr demo_violations" by code_simp
  have h4: "\<forall>v\<in>set demo_violations. \<forall>w\<in>set demo_violations. path_lt (fst v) (fst w) \<noteq> None"
    by code_simp
  have ne: "demo_violations \<noteq> []" by (simp add: demo_violations_def)
  have v: "validate_payload checking_env ''T1'' (JObj demo_plain) = Inr (Some ''0 is not of type string'')"
    by code_simp
  show ?thesis using first_violation_reported[OF h1 h2 h3 h4] ne v by blast
qed

section \<open>The projection on the columns\<close>

lemma fold_keys_lookup:
  "fold (\<lambda>k m. m(lower k \<mapsto> k)) ks m0 l
     = (if filter (\<lambda>k. lower k = l) ks = [] then m0 l
        else Some (last (filter (\<lambda>k. lower k = l) ks)))"
  by (induction ks rule: rev_induct) simp_all

lemma data_keys_none:
  "\<forall>kv\<in>set d. lower (fst kv) \<noteq> l \<Longrightarrow> data_keys d l = None"
proof -
  assume "\<forall>kv\<in>set d. lower (fst kv) \<noteq> l"
  then have "filter (\<lambda>k. lower k = l) (map fst d) = []"
    by (auto simp: filter_empty_conv)
  then show ?thesis by (simp add: data_keys_def fold_keys_lookup)
qed

lemma data_keys_last:
  assumes "lower k = l" and "\<forall>kv\<in>set post. lower (fst kv) \<noteq> l"
  shows "data_keys (pre @ (k, v) # post) l = Some k"
proof -
  have "filter (\<lambda>k. lower k = l) (map fst post) = []"
    using assms(2) by (auto simp: filter_empty_conv)
  with assms(1) have "filter (\<lambda>k. lower k = l) (map fst (pre @ (k, v) # post))
      = filter (\<lambda>k. lower k = l) (map fst pre) @ [k]"
    by simp
  then have "filter (\<lambda>k. lower k = l) (map fst (pre @ (k, v) # post)) \<noteq> []"
    and "last (filter (\<lambda>k. lower k = l) (map fst (pre @ (k, v) # post))) = k"
    by simp_all
  then show ?thesis
    unfolding data_keys_def fold_keys_lookup by simp
qed

lemma dict_get_middle: "k \<notin> fst ` set pre \<Longrightarrow> dict_get (pre @ (k, v) # post) k = v"
  by (induction pre) (auto simp: dict_get_def)

lemma column_value_unmatched:
  "\<forall>kv\<in>set d. lower (fst kv) \<noteq> lower col \<Longrightarrow>
   column_value d ident loc col
     = (if lower col = ''identifier'' then normalize_value ident
        else if lower col = ''documentlocation'' then normalize_value loc
        else JNull)"
  by (simp add: column_value_def data_keys_none normalize_value_def)

lemma column_value_matched:
  assumes "lower k = lower col" and "\<forall>kv\<in>set post. lower (fst kv) \<noteq> lower col"
    and "k \<notin> fst ` set pre"
  shows "column_value (pre @ (k, v) # post) ident loc col
     = (if v \<noteq> JNull then normalize_value v
        else if lower col = ''identifier'' then normalize_value ident
        else if lower col = ''documentlocation'' then normalize_value loc
        else JNull)"
  using data_keys_last[OF assms(1,2), of pre v] dict_get_middle[OF assms(3), of v post]
  by (simp add: column_value_def normalize_value_def)

lemma insert_if_absent_events:
  "\<exists>es. trace (snd (insert_if_absent url d sid ident cols c))
          = trace c @ Exec (SelectForUpdate sid (identifier_col cols) (JStr ident)) # es
        \<and> set es \<subseteq> {Exec (InsertRow sid cols (row_values cols d (JStr ident) (JStr url))), Commit}"
  by (auto simp: insert_if_absent_def select_for_update_def insert_row_def commit_def andthen_def
      issue_def ret_def store_table_def Let_def split: option.splits)

lemma table_exists_result:
  "table_exists n c = (r, c') \<Longrightarrow>
   tables c' = tables c \<and> trace c' = trace c @ [Exec (ShowTablesLike n)]"
  by (auto simp: table_exists_def andthen_def issue_def Let_def split: option.splits)

lemma get_columns_result:
  "get_columns n c = (r, c') \<Longrightarrow>
   tables c' = tables c \<and> trace c' = trace c @ [Exec (ShowColumns n)]
   \<and> (\<forall>cols. r = Inr cols \<longrightarrow> (\<exists>t. map_of (tables c) n = Some t \<and> cols = t_columns t))"
  by (auto simp: get_columns_def andthen_def issue_def Let_def split: option.splits)

lemma checked_write_inserts:
  assumes "Exec (InsertRow n cs vs) \<in> set (emitted c (snd (checked_write url d sid ident c)))"
  shows "n = sid \<and> (\<exists>t. map_of (tables c) sid = Some t \<and> cs = t_columns t)
         \<and> vs = row_values cs d (JStr ident) (JStr url)"
proof -
  obtain r1 c1 where t: "table_exists sid c = (r1, c1)" by (cases "table_exists sid c")
  note t1 = table_exists_result[OF t]
  show ?thesis
  proof (cases r1)
    case (Inl x)
    then show ?thesis using assms t t1 by (simp add: checked_write_def andthen_def emitted_def)
  next
    case (Inr there)
    show ?thesis
    proof (cases there)
      case False
      then show ?thesis using assms t t1 Inr
        by (simp add: checked_write_def andthen_def emitted_def ret_def)
    next
      case True
      obtain r2 c2 where g: "get_columns sid c1 = (r2, c2)" by (cases "get_columns sid c1")
      note g1 = get_columns_result[OF g]
      show ?thesis
      proof (cases r2)
        case (Inl x)
        then show ?thesis using assms t t1 Inr True g g1
          by (simp add: checked_write_def andthen_def emitted_def)
      next
        case cols: (Inr cols)
        obtain tb where tb: "map_of (tables c) sid = Some tb" "cols = t_columns tb"
          using g1 cols t1 by auto
        show ?thesis
        proof (cases "cols = []")
          case True
          then show ?thesis using assms t t1 Inr \<open>there\<close> g g1 cols
            by (simp add: checked_write_def andthen_def emitted_def ret_def)
        next
          case False
          obtain es where es: "trace (snd (insert_if_absent url d sid ident cols c2))
              = trace c2 @ Exec (SelectForUpdate sid (identifier_col cols) (JStr ident)) # es"
            "set es \<subseteq> {Exec (InsertRow sid cols (row_values cols d (JStr ident) (JStr url))), Commit}"
            using insert_if_absent_events by blast
          have "checked_write url d sid ident c = insert_if_absent url d sid ident cols c2"
            using t Inr \<open>there\<close> g cols False by (simp add: checked_write_def andthen_def)
          then have "Exec (InsertRow n cs vs) \<in> set es"
            using assms es(1) t1 g1 by (auto simp: emitted_def)
          then show ?thesis using es(2) tb by auto
        qed
      qed
    qed
  qed
qed

lemma process_file_inserts:
  assumes "Exec (InsertRow n cs vs) \<in> set (emitted c (snd (process_file e url d sid ident al c)))"
  shows "n = sid \<and> (\<exists>t. map_of (tables c) sid = Some t \<and> cs = t_columns t)
         \<and> vs = row_values cs d (JStr ident) (JStr url)"
proof -
  have "process_file e url d sid ident al c = checked_write url d sid ident c
        \<or> trace (snd (process_file e url d sid ident al c)) = trace c"
    by (auto simp: process_file_def ret_def raise_def split: sum.splits option.splits)
  then show ?thesis using assms checked_write_inserts by (auto simp: emitted_def)
qed

lemma upsert_row_events:
  "trace (snd (upsert_row n cols vs c)) = trace c @ [Exec (UpsertRow n cols vs)]"
  by (auto simp: upsert_row_def andthen_def issue_def store_table_def Let_def split: option.splits)

lemma fs_process_file_upserts:
  assumes "Exec (UpsertRow n cs vs) \<in> set (emitted c (snd (fs_process_file path tn ident d c)))"
  shows "n = tn \<and> (\<exists>t. map_of (tables c) tn = Some t \<and> cs = t_columns t)
         \<and> vs = row_values cs d ident (JStr path)"
proof -
  obtain r1 c1 where t: "table_exists tn c = (r1, c1)" by (cases "table_exists tn c")
  note t1 = table_exists_result[OF t]
  show ?thesis
  proof (cases r1)
    case (Inl x)
    then show ?thesis using assms t t1 by (simp add: fs_process_file_def andthen_def emitted_def)
  next
    case (Inr there)
    show ?thesis
    proof (cases there)
      case False
      then show ?thesis using assms t t1 Inr
        by (simp add: fs_process_file_def andthen_def emitted_def ret_def)
    next
      case True
      obtain r2 c2 where g: "get_columns tn c1 = (r2, c2)" by (cases "get_columns tn c1")
      note g1 = get_columns_result[OF g]
      show ?thesis
      proof (cases r2)
        case (Inl x)
        then show ?thesis using assms t t1 Inr True g g1
          by (simp add: fs_process_file_def andthen_def emitted_def)
      next
        case cols: (Inr cols)
        obtain tb where tb: "map_of (tables c) tn = Some tb" "cols = t_columns tb"
          using g1 cols t1 by auto
        show ?thesis
        proof (cases "cols = []")
          case True
          then show ?thesis using assms t t1 Inr \<open>there\<close> g g1 cols
            by (simp add: fs_process_file_def andthen_def emitted_def ret_def)
        next
          case False
          have "fs_process_file path tn ident d c
                = upsert_row tn cols (row_values cols d ident (JStr path)) c2"
            using t Inr \<open>there\<close> g cols False by (simp add: fs_process_file_def andthen_def)
          then show ?thesis
            using assms t1 g1 tb upsert_row_events[of tn cols "row_values cols d ident (JStr path)" c2]
            by (auto simp: emitted_def)
        qed
      qed
    qed
  qed
qed

section \<open>The insert-only-if-absent policy\<close>

lemma insert_if_absent_found:
  assumes "map_of (tables c) sid = Some t"
    and "insert_if_absent url d sid ident (t_columns t) c = (Inr r, c')"
    and "list_ex (matches (t_columns t) (identifier_col (t_columns t)) (JStr ident)) (t_rows t)"
  shows "emitted c c' = [Exec (SelectForUpdate sid (identifier_col (t_columns t)) (JStr ident)),
            Commit]
         \<and> r = (False, ''Identifier '' @ quoted ident @ '' already exists in '' @ quoted sid @ ''.'')
         \<and> tables c' = tables c"
  using assms
  by (auto simp: insert_if_absent_def select_for_update_def commit_def andthen_def
      issue_def ret_def emitted_def Let_def split: option.splits if_splits)

lemma insert_if_absent_new:
  assumes "map_of (tables c) sid = Some t"
    and "insert_if_absent url d sid ident (t_columns t) c = (Inr r, c')"
    and "\<not> list_ex (matches (t_columns t) (identifier_col (t_columns t)) (JStr ident)) (t_rows t)"
  shows "emitted c c' = [Exec (SelectForUpdate sid (identifier_col (t_columns t)) (JStr ident)),
            Exec (InsertRow sid (t_columns t) (row_values (t_columns t) d (JStr ident) (JStr url))),
            Commit]
         \<and> r = (True, ''inserted'')
         \<and> map_of (tables c') sid
             = Some (t\<lparr>t_rows := t_rows t @ [row_values (t_columns t) d (JStr ident) (JStr url)]\<rparr>)
         \<and> saved_tables c' = tables c'"
  using assms
  by (auto simp: insert_if_absent_def select_for_update_def insert_row_def commit_def andthen_def
      issue_def ret_def emitted_def store_table_def update_conv' Let_def split: option.splits if_splits)

lemma checked_write_shape:
  "emitted c (snd (checked_write url d sid ident c)) = [Exec (ShowTablesLike sid)]
   \<or> emitted c (snd (checked_write url d sid ident c)) = [Exec (ShowTablesLike sid), Exec (ShowColumns sid)]
   \<or> (\<exists>t es. map_of (tables c) sid = Some t \<and> t_columns t \<noteq> []
          \<and> emitted c (snd (checked_write url d sid ident c))
              = Exec (ShowTablesLike sid) # Exec (ShowColumns sid)
                # Exec (SelectForUpdate sid (identifier_col (t_columns t)) (JStr ident)) # es
          \<and> set es \<subseteq> {Exec (InsertRow sid (t_columns t)
                              (row_values (t_columns t) d (JStr ident) (JStr url))), Commit})"
proof -
  obtain r1 c1 where t: "table_exists sid c = (r1, c1)" by (cases "table_exists sid c")
  note t1 = table_exists_result[OF t]
  show ?thesis
  proof (cases r1)
    case (Inl x)
    then show ?thesis using t t1 by (simp add: checked_write_def andthen_def emitted_def)
  next
    case (Inr there)
    show ?thesis
    proof (cases there)
      case False
      then show ?thesis using t t1 Inr
        by (simp add: checked_write_def andthen_def emitted_def ret_def)
    next
      case True
      obtain r2 c2 where g: "get_columns sid c1 = (r2, c2)" by (cases "get_columns sid c1")
      note g1 = get_columns_result[OF g]
      show ?thesis
      proof (cases r2)
        case (Inl x)
        then show ?thesis using t t1 Inr True g g1
          by (simp add: checked_write_def andthen_def emitted_def)
      next
        case cols: (Inr cols)
        obtain tb where tb: "map_of (tables c) sid = Some tb" "cols = t_columns tb"
          using g1 cols t1 by auto
        show ?thesis
        proof (cases "cols = []")
          case True
          then show ?thesis using t t1 Inr \<open>there\<close> g g1 cols
            by (simp add: checked_write_def andthen_def emitted_def ret_def)
        next
          case False
          obtain es where es: "trace (snd (insert_if_absent url d sid ident cols c2))
              = trace c2 @ Exec (SelectForUpdate sid (identifier_col cols) (JStr ident)) # es"
            "set es \<subseteq> {Exec (InsertRow sid cols (row_values cols d (JStr ident) (JStr url))), Commit}"
            using insert_if_absent_events by blast
          have "checked_write url d sid ident c = insert_if_absent url d sid ident cols c2"
            using t Inr \<open>there\<close> g cols False by (simp add: checked_write_def andthen_def)
          then have "emitted c (snd (checked_write url d sid ident c))
              = Exec (ShowTablesLike sid) # Exec (ShowColumns sid)
                # Exec (SelectForUpdate sid (identifier_col cols) (JStr ident)) # es"
            using es(1) t1 g1 by (simp add: emitted_def)
          then show ?thesis using es(2) tb False by blast
        qed
      qed
    qed
  qed
qed

lemma process_file_shape:
  assumes "Commit \<in> set (emitted c (snd (process_file e url d sid ident al c)))
           \<or> (\<exists>n cs vs. Exec (InsertRow n cs vs) \<in> set (emitted c (snd (process_file e url d sid ident al c))))"
  shows "\<exists>t es. map_of (tables c) sid = Some t
          \<and> emitted c (snd (process_file e url d sid ident al c))
              = Exec (ShowTablesLike sid) # Exec (ShowColumns sid)
                # Exec (SelectForUpdate sid (identifier_col (t_columns t)) (JStr ident)) # es"
proof -
  have "process_file e url d sid ident al c = checked_write url d sid ident c
        \<or> trace (snd (process_file e url d sid ident al c)) = trace c"
    by (auto simp: process_file_def ret_def raise_def split: sum.splits option.splits)
  then show ?thesis
  proof
    assume eq: "process_file e url d sid ident al c = checked_write url d sid ident c"
    show ?thesis using checked_write_shape[of c url d sid ident] assms unfolding eq by auto
  next
    assume "trace (snd (process_file e url d sid ident al c)) = trace c"
    then show ?thesis using assms by (simp add: emitted_def)
  qed
qed

lemma record_result_ok:
  assumes "faults c = []"
  shows "record_result it sid ident st err c
         = (Inr (), c\<lparr>clock := clock c + 2,
                       trace := trace c @ [Exec (ReplaceState (href it) (result_row it sid ident st err)), Commit],
                       ingest_state := AList.update (href it) (result_row it sid ident st err) (ingest_state c),
                       saved_state := AList.update (href it) (result_row it sid ident st err) (ingest_state c),
                       saved_tables := tables c\<rparr>)"
  using assms
  by (simp add: record_result_def replace_state_def commit_def andthen_def issue_def store_state_def Let_def)

lemma skip_is_recorded:
  assumes "process_file e (file_url e (href it)) d sid ident al c = (Inr (False, msg), c1)"
    and "faults c1 = []"
  shows "\<exists>c2. process_and_record e al it d sid ident c = (Inr (), c2)
           \<and> emitted c1 c2
               = [Exec (ReplaceState (href it) (result_row it sid ident ''skipped'' (Some msg))), Commit]
           \<and> map_of (ingest_state c2) (href it) = Some (result_row it sid ident ''skipped'' (Some msg))"
  using assms record_result_ok[OF assms(2), of it sid ident "''skipped''" "Some msg"]
  by (simp add: process_and_record_def try_except_def andthen_def emitted_def update_conv')

text \<open>
  C2.  A document that reaches the write step of \<open>process_file\<close> is handled by
  \<open>insert_if_absent\<close>.  (1) Whenever \<open>process_file\<close> issues an \<open>INSERT\<close> or a
  commit, the statements before it are \<open>SHOW TABLES\<close>, \<open>SHOW COLUMNS\<close> and the
  \<open>SELECT ... FOR UPDATE\<close> on the identifier column with the identifier of the
  document: the select comes first.  (2) When no statement of the write step raises and
  the table holds a row with that identifier, the step issues the select and a commit,
  no insert, leaves the table as it is and returns \<open>False\<close> with the message that the
  identifier exists; (3) when the table holds no such row, it issues the select, the
  \<open>INSERT\<close> of the projected row and a commit, after which the table holds the row.
  (4) A result \<open>(False, message)\<close> of \<open>process_file\<close> is written to the state table
  with the status \<open>skipped\<close> and the message, and committed.
\<close>

theorem insert_only_if_absent:
  "((Commit \<in> set (emitted c (snd (process_file e url d sid ident al c)))
      \<or> (\<exists>n cs vs. Exec (InsertRow n cs vs) \<in> set (emitted c (snd (process_file e url d sid ident al c)))))
     \<longrightarrow> (\<exists>t es. map_of (tables c) sid = Some t
            \<and> emitted c (snd (process_file e url d sid ident al c))
                = Exec (ShowTablesLike sid) # Exec (ShowColumns sid)
                  # Exec (SelectForUpdate sid (identifier_col (t_columns t)) (JStr ident)) # es))
   \<and> (map_of (tables c) sid = Some t
       \<and> insert_if_absent url d sid ident (t_columns t) c = (Inr r, c')
     \<longrightarrow> (list_ex (matches (t_columns t) (identifier_col (t_columns t)) (JStr ident)) (t_rows t)
          \<longrightarrow> emitted c c'
                = [Exec (SelectForUpdate sid (identifier_col (t_columns t)) (JStr ident)), Commit]
            \<and> r = (False, ''Identifier '' @ quoted ident @ '' already exists in '' @ quoted sid @ ''.'')
            \<and> tables c' = tables c)
       \<and> (\<not> list_ex (matches (t_columns t) (identifier_col (t_columns t)) (JStr ident)) (t_rows t)
          \<longrightarrow> emitted c c'
                = [Exec (SelectForUpdate sid (identifier_col (t_columns t)) (JStr ident)),
                   Exec (InsertRow sid (t_columns t) (row_values (t_columns t) d (JStr ident) (JStr url))),
                   Commit]
            \<and> r = (True, ''inserted'')
            \<and> map_of (tables c') sid
                = Some (t\<lparr>t_rows := t_rows t @ [row_values (t_columns t) d (JStr ident) (JStr url)]\<rparr>)
            \<and> saved_tables c' = tables c'))
   \<and> (process_file e (file_url e (href it)) d sid ident al c = (Inr (False, msg), c1)
       \<and> faults c1 = []
     \<longrightarrow> (\<exists>c2. process_and_record e al it d sid ident c = (Inr (), c2)
            \<and> emitted c1 c2
                = [Exec (ReplaceState (href it) (result_row it sid ident ''skipped'' (Some msg))), Commit]
            \<and> map_of (ingest_state c2) (href it)
                = Some (result_row it sid ident ''skipped'' (Some msg))))"
  using process_file_shape[of c e url d sid ident al]
    insert_if_absent_found[of c sid t url d ident r c']
    insert_if_absent_new[of c sid t url d ident r c']
    skip_is_recorded[of e it d sid ident al c msg c1]
  by blast

theorem insert_only_if_absent_witness:
  "(\<exists>t es. map_of (tables demo_conn) ''T1'' = Some t
       \<and> emitted demo_conn
            (snd (process_file demo_env ''http://dav/a/b.json'' demo_doc ''T1'' ''b'' None demo_conn))
           = Exec (ShowTablesLike ''T1'') # Exec (ShowColumns ''T1'')
             # Exec (SelectForUpdate ''T1'' (identifier_col (t_columns t)) (JStr ''b'')) # es)
   \<and> emitted filled_conn
        (snd (insert_if_absent ''http://dav/a/b.json'' demo_doc ''T1'' ''b'' (t_columns filled_table) filled_conn))
       = [Exec (SelectForUpdate ''T1'' (identifier_col (t_columns filled_table)) (JStr ''b'')), Commit]
   \<and> tables (snd (insert_if_absent ''http://dav/a/b.json'' demo_doc ''T1'' ''b'' (t_columns filled_table) filled_conn))
       = tables filled_conn
   \<and> emitted demo_conn
        (snd (insert_if_absent ''http://dav/a/b.json'' demo_doc ''T1'' ''b'' (t_columns demo_table) demo_conn))
       = [Exec (SelectForUpdate ''T1'' (identifier_col (t_columns demo_table)) (JStr ''b'')),
          Exec (InsertRow ''T1'' (t_columns demo_table)
                  (row_values (t_columns demo_table) demo_doc (JStr ''b'') (JStr ''http://dav/a/b.json''))),
          Commit]
   \<and> (\<exists>c2. process_and_record demo_env None entry_b demo_doc ''T1'' ''b'' filled_conn = (Inr (), c2)
          \<and> map_of (ingest_state c2) (href entry_b)
              = Some (result_row entry_b ''T1'' ''b'' ''skipped''
                        (Some (''Identifier '' @ quoted ''b'' @ '' already exists in '' @ quoted ''T1'' @ ''.''))))"
proof -
  let ?u = "''http://dav/a/b.json''"
  let ?msg = "''Identifier '' @ quoted ''b'' @ '' already exists in '' @ quoted ''T1'' @ ''.''"
  let ?pf = "process_file demo_env ?u demo_doc ''T1'' ''b'' None demo_conn"
  let ?found = "insert_if_absent ?u demo_doc ''T1'' ''b'' (t_columns filled_table) filled_conn"
  let ?new = "insert_if_absent ?u demo_doc ''T1'' ''b'' (t_columns demo_table) demo_conn"
  let ?skip = "process_file demo_env (file_url demo_env (href entry_b)) demo_doc ''T1'' ''b'' None filled_conn"
  have a: "Commit \<in> set (emitted demo_conn (snd ?pf))" by code_simp
  have b1: "map_of (tables filled_conn) ''T1'' = Some filled_table" by code_simp
  have b2: "?found = (Inr (False, ?msg), snd ?found)" by code_simp
  have b3: "list_ex (matches (t_columns filled_table) (identifier_col (t_columns filled_table)) (JStr ''b''))
              (t_rows filled_table)" by code_simp
  have c1: "map_of (tables demo_conn) ''T1'' = Some demo_table" by code_simp
  have c2: "?new = (Inr (True, ''inserted''), snd ?new)" by code_simp
  have c3: "\<not> list_ex (matches (t_columns demo_table) (identifier_col (t_columns demo_table)) (JStr ''b''))
              (t_rows demo_table)" by code_simp
  have d1: "?skip = (Inr (False, ?msg), snd ?skip)" by code_simp
  have d2: "faults (snd ?skip) = []" by code_simp
  have p1: "\<exists>t es. map_of (tables demo_conn) ''T1'' = Some t
       \<and> emitted demo_conn (snd ?pf)
           = Exec (ShowTablesLike ''T1'') # Exec (ShowColumns ''T1'')
             # Exec (SelectForUpdate ''T1'' (identifier_col (t_columns t)) (JStr ''b'')) # es"
    using insert_only_if_absent[of demo_conn demo_env ?u demo_doc "''T1''" "''b''" None] a by blast
  have p2: "emitted filled_conn (snd ?found)
       = [Exec (SelectForUpdate ''T1'' (identifier_col (t_columns filled_table)) (JStr ''b'')), Commit]
     \<and> tables (snd ?found) = tables filled_conn"
    using insert_only_if_absent[of filled_conn _ ?u demo_doc "''T1''" "''b''" _ filled_table
        "(False, ?msg)" "snd ?found"] b1 b2 b3 by blast
  have p3: "emitted demo_conn (snd ?new)
       = [Exec (SelectForUpdate ''T1'' (identifier_col (t_columns demo_table)) (JStr ''b'')),
          Exec (InsertRow ''T1'' (t_columns demo_table)
                  (row_values (t_columns demo_table) demo_doc (JStr ''b'') (JStr ?u))),
          Commit]"
    using insert_only_if_absent[of demo_conn _ ?u demo_doc "''T1''" "''b''" _ demo_table
        "(True, ''inserted'')" "snd ?new"] c1 c2 c3 by blast
  have p4: "\<exists>c2. process_and_record demo_env None entry_b demo_doc ''T1'' ''b'' filled_conn = (Inr (), c2)
          \<and> map_of (ingest_state c2) (href entry_b)
              = Some (result_row entry_b ''T1'' ''b'' ''skipped'' (Some ?msg))"
    using insert_only_if_absent[of filled_conn demo_env _ demo_doc "''T1''" "''b''" None _ _ _
        entry_b ?msg "snd ?skip"] d1 d2 by blast
  show ?thesis using p1 p2 p3 p4 by blast
qed

section \<open>Errors while a document is processed\<close>

lemma rollback_ok:
  "map_of (faults c) (clock c) = None \<Longrightarrow>
   rollback c = (Inr (), c\<lparr>clock := clock c + 1, trace := trace c @ [Rollback],
                            tables := saved_tables c, ingest_state := saved_state c\<rparr>)"
  by (simp add: rollback_def andthen_def issue_def)

lemma handler_ok:
  assumes "map_of (faults c1) (clock c1) = None"
    and "map_of (faults c1) (clock c1 + 1) = None"
    and "map_of (faults c1) (clock c1 + 2) = None"
  shows "andthen rollback (\<lambda>_. record_result it sid ident ''error'' (Some m)) c1
         = (Inr (), c1\<lparr>clock := clock c1 + 3,
                        trace := trace c1 @ [Rollback,
                                   Exec (ReplaceState (href it) (result_row it sid ident ''error'' (Some m))),
                                   Commit],
                        tables := saved_tables c1,
                        ingest_state := AList.update (href it) (result_row it sid ident ''error'' (Some m))
                                          (saved_state c1),
                        saved_state := AList.update (href it) (result_row it sid ident ''error'' (Some m))
                                          (saved_state c1)\<rparr>)"
  using assms
  by (simp add: rollback_ok andthen_def record_result_def replace_state_def commit_def issue_def
      store_state_def Let_def)

lemma scan_item_processes:
  assumes "\<not> unchanged sm it"
    and "http_get e (file_url e (href it)) = Inr (JObj d)"
    and "dict_get d ''FileTypeIdentifier'' = JStr FILE_TYPE_IDENTIFIER"
    and "get_schema_id d = Some sid" and "sid \<noteq> []"
  shows "scan_item e al sm it c0
         = process_and_record e al it d sid (get_identifier d (stem (href it)))
             (c0\<lparr>trace := trace c0 @ [HttpGet (file_url e (href it))]\<rparr>)"
  using assms by (simp add: scan_item_def download_ok andthen_def)

text \<open>
  C8, as amended.  Let a document reach the processing step of the loop, and let
  \<open>process_file\<close> or the state row that follows it raise an exception \<open>x\<close> (a
  database error or any other), leaving the connection as \<open>c1\<close>.  If the three calls
  of the handler do not fail in turn, the loop body ends normally: the handler rolls
  the transaction back, then writes the state row with the status \<open>error\<close> and the
  text of \<open>x\<close>, then commits; the target tables are back at their last committed
  content, and the scan goes on with the entries that follow.
\<close>

theorem error_rolled_back_and_recorded:
  assumes "\<not> unchanged sm it"
    and "http_get e (file_url e (href it)) = Inr (JObj d)"
    and "dict_get d ''FileTypeIdentifier'' = JStr FILE_TYPE_IDENTIFIER"
    and "get_schema_id d = Some sid" and "sid \<noteq> []"
    and "andthen
           (process_file e (file_url e (href it)) d sid (get_identifier d (stem (href it))) al)
           (\<lambda>r. record_result it sid (get_identifier d (stem (href it)))
                   (if fst r then ''ok'' else ''skipped'') (if fst r then None else Some (snd r)))
           (c0\<lparr>trace := trace c0 @ [HttpGet (file_url e (href it))]\<rparr>)
         = (Inl x, c1)"
    and "map_of (faults c1) (clock c1) = None"
    and "map_of (faults c1) (clock c1 + 1) = None"
    and "map_of (faults c1) (clock c1 + 2) = None"
  shows "\<exists>c2. scan_item e al sm it c0 = (Inr (), c2)
           \<and> emitted c1 c2
               = [Rollback,
                  Exec (ReplaceState (href it)
                          (result_row it sid (get_identifier d (stem (href it))) ''error''
                             (Some (exc_text x)))),
                  Commit]
           \<and> tables c2 = saved_tables c1
           \<and> map_of (ingest_state c2) (href it)
               = Some (result_row it sid (get_identifier d (stem (href it))) ''error''
                         (Some (exc_text x)))
           \<and> saved_state c2 = ingest_state c2
           \<and> scan_items e al sm (it # its) c0 = scan_items e al sm its c2"
proof -
  let ?ident = "get_identifier d (stem (href it))"
  let ?c = "c0\<lparr>trace := trace c0 @ [HttpGet (file_url e (href it))]\<rparr>"
  let ?row = "result_row it sid ?ident ''error'' (Some (exc_text x))"
  let ?c2 = "c1\<lparr>clock := clock c1 + 3,
                 trace := trace c1 @ [Rollback, Exec (ReplaceState (href it) ?row), Commit],
                 tables := saved_tables c1,
                 ingest_state := AList.update (href it) ?row (saved_state c1),
                 saved_state := AList.update (href it) ?row (saved_state c1)\<rparr>"
  have "process_and_record e al it d sid ?ident ?c
        = andthen rollback (\<lambda>_. record_result it sid ?ident ''error'' (Some (exc_text x))) c1"
    using assms(6) by (simp add: process_and_record_def try_except_def)
  also have "\<dots> = (Inr (), ?c2)" by (rule handler_ok[OF assms(7-9)])
  finally have "scan_item e al sm it c0 = (Inr (), ?c2)"
    using scan_item_processes[OF assms(1-5)] by simp
  then show ?thesis
    by (intro exI[of _ ?c2]) (simp add: emitted_def update_conv' andthen_def)
qed

theorem error_rolled_back_and_recorded_witness:
  "\<exists>c2. scan_item demo_env None [] entry_b (failing_conn\<lparr>clock := 3\<rparr>) = (Inr (), c2)
      \<and> tables c2 = tables demo_conn
      \<and> map_of (ingest_state c2) ''/a/b.json''
          = Some (result_row entry_b ''T1'' ''b'' ''error'' (Some ''Lock wait timeout exceeded''))
      \<and> scan_items demo_env None [] [entry_b, entry_c] (failing_conn\<lparr>clock := 3\<rparr>)
          = scan_items demo_env None [] [entry_c] c2"
proof -
  let ?start = "failing_conn\<lparr>clock := 3\<rparr>"
  let ?cur = "?start\<lparr>trace := trace ?start @ [HttpGet (file_url demo_env (href entry_b))]\<rparr>"
  let ?ident = "get_identifier demo_doc (stem (href entry_b))"
  let ?g = "andthen
           (process_file demo_env (file_url demo_env (href entry_b)) demo_doc ''T1'' ?ident None)
           (\<lambda>r. record_result entry_b ''T1'' ?ident
                   (if fst r then ''ok'' else ''skipped'') (if fst r then None else Some (snd r)))
           ?cur"
  have h1: "\<not> unchanged [] entry_b" by code_simp
  have h2: "http_get demo_env (file_url demo_env (href entry_b)) = Inr (JObj demo_doc)" by code_simp
  have h3: "dict_get demo_doc ''FileTypeIdentifier'' = JStr FILE_TYPE_IDENTIFIER" by code_simp
  have h4: "get_schema_id demo_doc = Some ''T1''" by code_simp
  have h5: "''T1'' \<noteq> []" by simp
  have h6: "?g = (Inl (DatabaseError ''Lock wait timeout exceeded''), snd ?g)" by code_simp
  have h7: "map_of (faults (snd ?g)) (clock (snd ?g)) = None"
    and h8: "map_of (faults (snd ?g)) (clock (snd ?g) + 1) = None"
    and h9: "map_of (faults (snd ?g)) (clock (snd ?g) + 2) = None" by code_simp+
  have s: "saved_tables (snd ?g) = tables demo_conn" by code_simp
  have i: "?ident = ''b''" by code_simp
  have k: "href entry_b = ''/a/b.json''" by code_simp
  from error_rolled_back_and_recorded[OF h1 h2 h3 h4 h5 h6 h7 h8 h9, of "[entry_c]"]
  obtain c2 where a: "scan_item demo_env None [] entry_b ?start = (Inr (), c2)"
    and b: "tables c2 = saved_tables (snd ?g)"
    and c: "map_of (ingest_state c2) (href entry_b)
              = Some (result_row entry_b ''T1'' ?ident ''error''
                        (Some (exc_text (DatabaseError ''Lock wait timeout exceeded''))))"
    and d: "scan_items demo_env None [] [entry_b, entry_c] ?start = scan_items demo_env None [] [entry_c] c2"
    by blast
  have "tables c2 = tables demo_conn" using b s by simp
  moreover have "map_of (ingest_state c2) ''/a/b.json''
      = Some (result_row entry_b ''T1'' ''b'' ''error'' (Some ''Lock wait timeout exceeded''))"
    using c i k by simp
  ultimately show ?thesis using a d by blast
qed

text \<open>
  The claim as stated fails when the database keeps failing: the \<open>INSERT\<close> of the
  first document raises, the rollback of the handler raises as well, and that second
  error is caught nowhere.  The scan ends with it; no state row is written, and the
  second entry of the listing is never requested.
\<close>

theorem error_rolled_back_and_recorded_counterexample:
  "fst (scan demo_env None [entry_b, entry_c] broken_conn)
     = Inl (DatabaseError ''MySQL server has gone away'')
   \<and> trace (snd (scan demo_env None [entry_b, entry_c] broken_conn))
       = [Exec CreateStateTable, Commit, Exec (SelectState [''/a/b.json'', ''/a/c.json'']),
          HttpGet ''http://dav/a/b.json'',
          Exec (ShowTablesLike ''T1''), Exec (ShowColumns ''T1''),
          Exec (SelectForUpdate ''T1'' ''Identifier'' (JStr ''b'')),
          Exec (InsertRow ''T1'' [''Identifier'', ''DocumentLocation'', ''Value'']
                  [JStr ''b'', JStr ''http://dav/a/b.json'', JInt 42]),
          Rollback, Close]
   \<and> ingest_state (snd (scan demo_env None [entry_b, entry_c] broken_conn)) = []
   \<and> HttpGet ''http://dav/a/c.json'' \<notin> set (trace (snd (scan demo_env None [entry_b, entry_c] broken_conn)))"
  by code_simp

section \<open>Relations between the connection before and after\<close>

lemma same_schema_refl [simp]: "same_schema c c"
  by (simp add: same_schema_def)

lemma same_schema_faults: "same_schema c c' \<Longrightarrow> faults c' = faults c"
  unfolding same_schema_def by (elim conjE)

lemma same_schema_autocommit: "same_schema c c' \<Longrightarrow> autocommit c' = autocommit c"
  unfolding same_schema_def by (elim conjE)

lemma same_schema_names:
  "same_schema c c' \<Longrightarrow>
   map (\<lambda>nt. (fst nt, t_columns (snd nt))) (tables c')
     = map (\<lambda>nt. (fst nt, t_columns (snd nt))) (tables c)"
  unfolding same_schema_def by (elim conjE)

lemma same_schema_saved:
  "same_schema c c' \<Longrightarrow> autocommit c \<Longrightarrow> saved_tables c = tables c \<Longrightarrow> saved_tables c' = tables c'"
  unfolding same_schema_def by blast

lemma same_schema_trans:
  assumes "same_schema a b" and "same_schema b c"
  shows "same_schema a c"
  unfolding same_schema_def
proof (intro conjI impI)
  show "faults c = faults a"
    using same_schema_faults[OF assms(1)] same_schema_faults[OF assms(2)] by (rule trans[rotated])
  show "autocommit c = autocommit a"
    using same_schema_autocommit[OF assms(1)] same_schema_autocommit[OF assms(2)] by (rule trans[rotated])
  show "map (\<lambda>nt. (fst nt, t_columns (snd nt))) (tables c)
          = map (\<lambda>nt. (fst nt, t_columns (snd nt))) (tables a)"
    using same_schema_names[OF assms(1)] same_schema_names[OF assms(2)] by (rule trans[rotated])
  assume h: "autocommit a \<and> saved_tables a = tables a"
  then have "saved_tables b = tables b" using same_schema_saved[OF assms(1)] by blast
  moreover have "autocommit b" using h same_schema_autocommit[OF assms(1)] by blast
  ultimately show "saved_tables c = tables c" using same_schema_saved[OF assms(2)] by blast
qed

lemma map_of_columns:
  "map_of (map (\<lambda>nt. (fst nt, t_columns (snd nt))) xs) n = map_option t_columns (map_of xs n)"
  by (induction xs) auto

lemma columns_of:
  assumes "map (\<lambda>nt. (fst nt, t_columns (snd nt))) ts' = map (\<lambda>nt. (fst nt, t_columns (snd nt))) ts"
  shows "map_option t_columns (map_of ts' n) = map_option t_columns (map_of ts n)"
proof -
  have "map_option t_columns (map_of ts' n)
        = map_of (map (\<lambda>nt. (fst nt, t_columns (snd nt))) ts') n"
    by (rule map_of_columns[symmetric])
  also have "\<dots> = map_of (map (\<lambda>nt. (fst nt, t_columns (snd nt))) ts) n"
    by (subst assms) (rule refl)
  also have "\<dots> = map_option t_columns (map_of ts n)" by (rule map_of_columns)
  finally show ?thesis .
qed

lemma same_schema_columns:
  "same_schema c c' \<Longrightarrow>
   map_option t_columns (map_of (tables c') n) = map_option t_columns (map_of (tables c) n)"
  by (rule columns_of) (rule same_schema_names)

lemma rows_shrink_refl [simp]: "rows_shrink c c"
  by (auto simp: rows_shrink_def)

lemma rows_shrink_trans:
  assumes "rows_shrink a b" and "rows_shrink b c"
  shows "rows_shrink a c"
proof -
  have s: "same_schema a c" using assms same_schema_trans by (auto simp: rows_shrink_def)
  have "set (t_rows t') \<subseteq> set (t_rows t)"
    if h1: "map_of (tables a) n = Some t" and h2: "map_of (tables c) n = Some t'" for n t t'
  proof -
    have "map_option t_columns (map_of (tables b) n) = map_option t_columns (map_of (tables a) n)"
      using assms(1) by (simp add: rows_shrink_def same_schema_columns)
    with h1 have "map_of (tables b) n \<noteq> None" by auto
    then obtain tb where tb: "map_of (tables b) n = Some tb" by auto
    have "set (t_rows tb) \<subseteq> set (t_rows t)" using assms(1) h1 tb unfolding rows_shrink_def by blast
    moreover have "set (t_rows t') \<subseteq> set (t_rows tb)" using assms(2) h2 tb unfolding rows_shrink_def by blast
    ultimately show ?thesis by simp
  qed
  then show ?thesis using s unfolding rows_shrink_def by blast
qed

lemma update_same_columns:
  "map_of ts n = Some t \<Longrightarrow> t_columns t' = t_columns t \<Longrightarrow>
   map (\<lambda>nt. (fst nt, t_columns (snd nt))) (AList.update n t' ts)
     = map (\<lambda>nt. (fst nt, t_columns (snd nt))) ts"
  by (induction ts) (auto split: if_splits)

lemma store_table_same_schema:
  "map_of (tables c) n = Some t \<Longrightarrow> t_columns t' = t_columns t \<Longrightarrow> same_schema c (store_table n t' c)"
  by (simp add: same_schema_def store_table_def Let_def update_same_columns)

lemma store_table_rows_shrink:
  assumes "map_of (tables c) n = Some t" and "t_columns t' = t_columns t"
    and "set (t_rows t') \<subseteq> set (t_rows t)"
  shows "rows_shrink c (store_table n t' c)"
proof -
  have "set (t_rows u') \<subseteq> set (t_rows u)"
    if h1: "map_of (tables c) m = Some u" and h2: "map_of (tables (store_table n t' c)) m = Some u'"
    for m u u'
  proof (cases "m = n")
    case True
    then have "u' = t'" using h2 by (simp add: store_table_def Let_def update_conv')
    moreover have "u = t" using True h1 assms(1) by simp
    ultimately show ?thesis using assms(3) by simp
  next
    case False
    then have "u' = u" using h1 h2 by (simp add: store_table_def Let_def update_conv')
    then show ?thesis by simp
  qed
  then show ?thesis
    using store_table_same_schema[OF assms(1,2)] unfolding rows_shrink_def by blast
qed

lemma keepsI: "(\<And>c. R c (snd (m c))) \<Longrightarrow> keeps R m"
  by (simp add: keeps_def)

lemma keepsD: "keeps R m \<Longrightarrow> R c (snd (m c))"
  by (simp add: keeps_def)

lemma keeps_andthen:
  assumes tr: "\<And>a b c. R a b \<Longrightarrow> R b c \<Longrightarrow> R a c"
    and "keeps R m" and "\<And>x. keeps R (f x)"
  shows "keeps R (andthen m f)"
proof (rule keepsI)
  fix c
  obtain r c1 where m: "m c = (r, c1)" by (cases "m c")
  have 1: "R c c1" using keepsD[OF assms(2), of c] m by simp
  show "R c (snd (andthen m f c))"
  proof (cases r)
    case (Inl x)
    then show ?thesis using m 1 by (simp add: andthen_def)
  next
    case (Inr x)
    have "R c1 (snd (f x c1))" using keepsD[OF assms(3)] .
    then show ?thesis using m 1 Inr tr by (auto simp: andthen_def)
  qed
qed

lemma keeps_attempt:
  assumes "keeps R m"
  shows "keeps R (attempt m)"
proof (rule keepsI)
  fix c
  obtain r c1 where m: "m c = (r, c1)" by (cases "m c")
  then have "snd (attempt m c) = c1"
    by (cases r) (simp_all add: attempt_def try_except_def ret_def)
  then show "R c (snd (attempt m c))" using keepsD[OF assms, of c] m by simp
qed

lemma attempt_returns: "fst (attempt m c) = Inr ()"
  by (cases "m c"; cases "fst (m c)") (auto simp: attempt_def try_except_def ret_def)

lemma keeps_ret: "(\<And>c. R c c) \<Longrightarrow> keeps R (ret x)"
  by (simp add: keeps_def ret_def)

lemma issue_same_schema: "same_schema c (snd (issue ev c))"
  by (auto simp: issue_def Let_def same_schema_def split: option.splits)

lemma issue_rows_shrink: "rows_shrink c (snd (issue ev c))"
  by (auto simp: issue_def Let_def rows_shrink_def same_schema_def split: option.splits)

lemma keeps_statement:
  assumes tr: "\<And>a b c. R a b \<Longrightarrow> R b c \<Longrightarrow> R a c"
    and "\<And>c. R c (snd (issue ev c))" and "\<And>u c. R c (snd (g u c))"
  shows "keeps R (andthen (issue ev) g)"
  by (rule keeps_andthen[OF tr]) (auto simp: keeps_def assms)

lemma table_exists_shrink: "keeps rows_shrink (table_exists n)"
  unfolding table_exists_def
  by (rule keeps_statement) (auto intro: rows_shrink_trans issue_rows_shrink)

lemma get_columns_shrink: "keeps rows_shrink (get_columns n)"
  unfolding get_columns_def
  by (rule keeps_statement) (auto intro: rows_shrink_trans issue_rows_shrink split: option.splits)

lemma delete_rows_shrink: "keeps rows_shrink (delete_rows n col v)"
  unfolding delete_rows_def
proof (rule keeps_statement)
  fix u :: unit and c
  show "rows_shrink c (snd (case map_of (tables c) n of
               None \<Rightarrow> (Inl (no_table n), c)
             | Some t \<Rightarrow>
                 if lower col \<notin> set (map lower (t_columns t)) then (Inl (no_column col), c)
                 else (Inr (), store_table n
                         (t\<lparr>t_rows := filter (\<lambda>r. \<not> matches (t_columns t) col v r) (t_rows t)\<rparr>) c)))"
    by (cases "map_of (tables c) n") (auto intro!: store_table_rows_shrink)
qed (auto intro: rows_shrink_trans issue_rows_shrink)

lemma delete_row_shrink: "keeps rows_shrink (delete_row tn ident)"
  unfolding delete_row_def
proof (rule keeps_andthen)
  show "keeps rows_shrink (get_columns tn)" by (rule get_columns_shrink)
  show "keeps rows_shrink
          (if ''Identifier'' \<notin> set x \<and> ''identifier'' \<notin> set x then ret ()
           else delete_rows tn (identifier_col x) ident)" for x
    by (simp add: delete_rows_shrink keeps_ret)
qed (rule rows_shrink_trans)

lemma upsert_row_same: "keeps same_schema (upsert_row n cols vs)"
  unfolding upsert_row_def
proof (rule keeps_statement)
  fix u :: unit and c
  show "same_schema c (snd (case map_of (tables c) n of
               None \<Rightarrow> (Inl (no_table n), c)
             | Some t \<Rightarrow>
                 if cols \<noteq> t_columns t \<or> length vs \<noteq> length cols then (Inl bad_values, c)
                 else (case first_collision t vs of
                         None \<Rightarrow> (Inr (), store_table n (t\<lparr>t_rows := t_rows t @ [vs]\<rparr>) c)
                       | Some i \<Rightarrow>
                           if collides_any t vs (take i (t_rows t) @ drop (Suc i) (t_rows t))
                           then (Inl duplicate_entry, c)
                           else (Inr (), store_table n (t\<lparr>t_rows := (t_rows t)[i := vs]\<rparr>) c))))"
    by (cases "map_of (tables c) n"; cases "first_collision (the (map_of (tables c) n)) vs")
       (auto intro!: store_table_same_schema)
qed (auto intro: same_schema_trans issue_same_schema)

lemma rows_shrink_same: "keeps rows_shrink m \<Longrightarrow> keeps same_schema m"
  by (simp add: keeps_def rows_shrink_def)

lemma fs_process_file_same: "keeps same_schema (fs_process_file path tn ident d)"
  unfolding fs_process_file_def
proof (rule keeps_andthen)
  show "keeps same_schema (table_exists tn)" by (rule rows_shrink_same[OF table_exists_shrink])
  show "keeps same_schema
          (if \<not> x then ret ()
           else andthen (get_columns tn)
                  (\<lambda>columns. if columns = [] then ret ()
                     else upsert_row tn columns (row_values columns d ident (JStr path))))" for x
  proof (cases x)
    case True
    have "keeps same_schema (andthen (get_columns tn)
                  (\<lambda>columns. if columns = [] then ret ()
                     else upsert_row tn columns (row_values columns d ident (JStr path))))"
    proof (rule keeps_andthen)
      show "keeps same_schema (get_columns tn)" by (rule rows_shrink_same[OF get_columns_shrink])
      show "keeps same_schema (if y = [] then ret ()
               else upsert_row tn y (row_values y d ident (JStr path)))" for y
        by (simp add: upsert_row_same keeps_ret)
    qed (rule same_schema_trans)
    then show ?thesis using True by simp
  next
    case False
    then show ?thesis by (simp add: keeps_ret)
  qed
qed (rule same_schema_trans)

section \<open>Requests of a scan\<close>

lemma requests_append [simp]: "requests (xs @ ys) = requests xs @ requests ys"
  by (induction xs rule: requests.induct) auto

lemma quietly_refl [simp]: "quietly c c"
  by (simp add: quietly_def)

lemma quietly_trans: "quietly a b \<Longrightarrow> quietly b c \<Longrightarrow> quietly a c"
  unfolding quietly_def by (elim conjE exE) (auto intro!: exI)

lemma quietly_faults: "quietly c c' \<Longrightarrow> faults c' = faults c"
  by (simp add: quietly_def)

lemma quietly_requests: "quietly c c' \<Longrightarrow> requests (emitted c c') = []"
  by (auto simp: quietly_def emitted_def)

lemma keeps_try_except:
  assumes tr: "\<And>a b c. R a b \<Longrightarrow> R b c \<Longrightarrow> R a c"
    and "keeps R m" and "\<And>x. keeps R (h x)"
  shows "keeps R (try_except m h)"
proof (rule keepsI)
  fix c
  obtain r c1 where m: "m c = (r, c1)" by (cases "m c")
  have 1: "R c c1" using keepsD[OF assms(2), of c] m by simp
  show "R c (snd (try_except m h c))"
  proof (cases r)
    case (Inr x)
    then show ?thesis using m 1 by (simp add: try_except_def)
  next
    case (Inl x)
    have "R c1 (snd (h x c1))" using keepsD[OF assms(3)] .
    then show ?thesis using m 1 Inl tr by (auto simp: try_except_def)
  qed
qed

lemma quiet_statement:
  assumes "\<And>u. ev \<noteq> HttpGet u"
    and "\<And>x c. faults (snd (g x c)) = faults c \<and> trace (snd (g x c)) = trace c"
  shows "keeps quietly (andthen (issue ev) g)"
proof (rule keeps_statement)
  show "quietly a b \<Longrightarrow> quietly b c \<Longrightarrow> quietly a c" for a b c by (rule quietly_trans)
  show "quietly c (snd (issue ev c))" for c
    using assms(1) by (cases ev) (auto simp: issue_def Let_def quietly_def split: option.splits)
  show "quietly c (snd (g x c))" for x c
    using assms(2)[of x c] by (simp add: quietly_def)
qed

lemma commit_quietly: "keeps quietly commit"
  unfolding commit_def by (rule quiet_statement) simp_all

lemma rollback_quietly: "keeps quietly rollback"
  unfolding rollback_def by (rule quiet_statement) simp_all

lemma ensure_state_table_quietly: "keeps quietly ensure_state_table"
  by (auto simp: keeps_def ensure_state_table_def issue_def Let_def quietly_def split: option.splits)

lemma table_exists_quietly: "keeps quietly (table_exists n)"
  unfolding table_exists_def by (rule quiet_statement) simp_all

lemma get_columns_quietly: "keeps quietly (get_columns n)"
  unfolding get_columns_def by (rule quiet_statement) (simp_all split: option.splits)

lemma select_for_update_quietly: "keeps quietly (select_for_update n col v)"
  unfolding select_for_update_def by (rule quiet_statement) (simp_all split: option.splits)

lemma insert_row_quietly: "keeps quietly (insert_row n cols vs)"
  unfolding insert_row_def
  by (rule quiet_statement) (simp_all add: store_table_def Let_def split: option.splits)

lemma replace_state_quietly: "keeps quietly (replace_state p r)"
  unfolding replace_state_def by (rule quiet_statement) (simp_all add: store_state_def Let_def)

lemma select_state_quietly: "keeps quietly (select_state ps)"
  unfolding select_state_def by (rule quiet_statement) simp_all

lemma ret_quietly: "keeps quietly (ret x)"
  by (simp add: keeps_def ret_def)

lemma raise_quietly: "keeps quietly (raise x)"
  by (simp add: keeps_def raise_def)

lemma record_skip_quietly: "keeps quietly (record_skip it st err)"
  unfolding record_skip_def
  by (rule keeps_andthen[OF quietly_trans]) (simp_all add: replace_state_quietly commit_quietly)

lemma record_result_quietly: "keeps quietly (record_result it s i st err)"
  unfolding record_result_def
  by (rule keeps_andthen[OF quietly_trans]) (simp_all add: replace_state_quietly commit_quietly)

lemma insert_if_absent_quietly: "keeps quietly (insert_if_absent url d s i cols)"
  unfolding insert_if_absent_def
proof (rule keeps_andthen[OF quietly_trans])
  show "keeps quietly (select_for_update s (identifier_col cols) (JStr i))"
    by (rule select_for_update_quietly)
  have a: "keeps quietly (andthen commit (\<lambda>_. ret (False, m)))" for m
    by (rule keeps_andthen[OF quietly_trans]) (simp_all add: commit_quietly ret_quietly)
  have b: "keeps quietly (andthen (insert_row s cols vs) (\<lambda>_. andthen commit (\<lambda>_. ret (True, ''inserted''))))"
    for vs
    by (intro keeps_andthen[OF quietly_trans]) (simp_all add: commit_quietly ret_quietly insert_row_quietly)
  show "keeps quietly
          (if found then andthen commit
              (\<lambda>_. ret (False, ''Identifier '' @ quoted i @ '' already exists in '' @ quoted s @ ''.''))
           else andthen (insert_row s cols (row_values cols d (JStr i) (JStr url)))
              (\<lambda>_. andthen commit (\<lambda>_. ret (True, ''inserted''))))" for found
    using a b by (cases found) (simp_all del: append.simps)
qed

lemma checked_write_quietly: "keeps quietly (checked_write url d s i)"
  unfolding checked_write_def
proof (rule keeps_andthen[OF quietly_trans])
  show "keeps quietly (table_exists s)" by (rule table_exists_quietly)
  have a: "keeps quietly (andthen (get_columns s)
              (\<lambda>columns. if columns = [] then ret (False, ''Table '' @ quoted s @ '' has no columns.'')
                 else insert_if_absent url d s i columns))"
    by (rule keeps_andthen[OF quietly_trans])
      (simp_all add: get_columns_quietly ret_quietly insert_if_absent_quietly)
  show "keeps quietly
          (if \<not> there then ret (False, ''Table '' @ quoted s @ '' does not exist.'')
           else andthen (get_columns s)
              (\<lambda>columns. if columns = [] then ret (False, ''Table '' @ quoted s @ '' has no columns.'')
                 else insert_if_absent url d s i columns))" for there
    using a by (simp add: ret_quietly)
qed

lemma process_file_quietly: "keeps quietly (process_file e url d s i al)"
  unfolding process_file_def
  by (simp add: ret_quietly raise_quietly checked_write_quietly split: sum.splits option.splits)

lemma process_and_record_quietly: "keeps quietly (process_and_record e al it d s i)"
  unfolding process_and_record_def
proof (rule keeps_try_except[OF quietly_trans])
  show "keeps quietly (andthen (process_file e (file_url e (href it)) d s i al)
          (\<lambda>r. record_result it s i (if fst r then ''ok'' else ''skipped'')
                  (if fst r then None else Some (snd r))))"
    by (rule keeps_andthen[OF quietly_trans]) (simp_all add: process_file_quietly record_result_quietly)
  show "keeps quietly (andthen rollback (\<lambda>_. record_result it s i ''error'' (Some (exc_text x))))" for x
    by (rule keeps_andthen[OF quietly_trans]) (simp_all add: rollback_quietly record_result_quietly)
qed

lemma after_download_quietly:
  "keeps quietly
     (case got of
        None \<Rightarrow> ret ()
      | Some (JObj d) \<Rightarrow>
          if dict_get d ''FileTypeIdentifier'' \<noteq> JStr FILE_TYPE_IDENTIFIER
          then record_skip it ''skipped'' ''invalid FileTypeIdentifier''
          else
            (case get_schema_id d of
               None \<Rightarrow> record_skip it ''skipped'' ''missing SchemaID''
             | Some schema_id \<Rightarrow>
                 if schema_id = [] then record_skip it ''skipped'' ''missing SchemaID''
                 else process_and_record e al it d schema_id (get_identifier d (stem (href it))))
      | Some _ \<Rightarrow> raise not_a_dict)"
  by (simp add: ret_quietly raise_quietly record_skip_quietly process_and_record_quietly
      split: option.splits json.splits)

lemma download_requests:
  "faults (snd (download e it c)) = faults c
   \<and> (\<exists>es. trace (snd (download e it c)) = trace c @ HttpGet (file_url e (href it)) # es
           \<and> requests es = [])"
proof (cases "http_get e (file_url e (href it))")
  case (Inr data)
  then show ?thesis by (simp add: download_ok)
next
  case (Inl x)
  let ?cur = "c\<lparr>trace := trace c @ [HttpGet (file_url e (href it))]\<rparr>"
  let ?h = "andthen (record_skip it ''error'' (''download/parse error: '' @ exc_text x))
              (\<lambda>_. ret (None :: json option))"
  have eq: "download e it c = ?h ?cur"
    using Inl by (simp add: download_def try_except_def andthen_def fetch_def)
  have "keeps quietly ?h"
    by (rule keeps_andthen[OF quietly_trans]) (simp_all add: record_skip_quietly ret_quietly)
  then have "quietly ?cur (snd (?h ?cur))" by (rule keepsD)
  then show ?thesis unfolding eq by (auto simp: quietly_def)
qed

lemma scan_item_requests:
  "faults (snd (scan_item e al sm it c)) = faults c
   \<and> (\<exists>es. trace (snd (scan_item e al sm it c)) = trace c @ es
           \<and> requests es = (if unchanged sm it then [] else [file_url e (href it)]))"
proof (cases "unchanged sm it")
  case True
  then show ?thesis by (simp add: scan_item_def ret_def)
next
  case False
  let ?k = "\<lambda>got. case got of
        None \<Rightarrow> ret ()
      | Some (JObj d) \<Rightarrow>
          if dict_get d ''FileTypeIdentifier'' \<noteq> JStr FILE_TYPE_IDENTIFIER
          then record_skip it ''skipped'' ''invalid FileTypeIdentifier''
          else
            (case get_schema_id d of
               None \<Rightarrow> record_skip it ''skipped'' ''missing SchemaID''
             | Some schema_id \<Rightarrow>
                 if schema_id = [] then record_skip it ''skipped'' ''missing SchemaID''
                 else process_and_record e al it d schema_id (get_identifier d (stem (href it))))
      | Some _ \<Rightarrow> raise not_a_dict"
  have eq: "scan_item e al sm it c = andthen (download e it) ?k c"
    using False by (simp add: scan_item_def)
  obtain r c1 where d: "download e it c = (r, c1)" by (cases "download e it c")
  obtain es1 where e1: "faults c1 = faults c"
      "trace c1 = trace c @ HttpGet (file_url e (href it)) # es1" "requests es1 = []"
    using download_requests[of e it c] d by auto
  show ?thesis
  proof (cases r)
    case (Inl x)
    then show ?thesis using d e1 False by (simp add: eq andthen_def)
  next
    case (Inr got)
    have "quietly c1 (snd (?k got c1))" using after_download_quietly by (rule keepsD)
    then obtain es2 where "faults (snd (?k got c1)) = faults c1"
        "trace (snd (?k got c1)) = trace c1 @ es2" "requests es2 = []"
      by (auto simp: quietly_def)
    then show ?thesis using d e1 Inr False unfolding eq by (simp add: andthen_def)
  qed
qed

lemma scan_items_requests:
  "\<exists>k\<le>length files.
      requests (emitted c (snd (scan_items e al sm files c)))
        = map (\<lambda>it. file_url e (href it)) (filter (\<lambda>it. \<not> unchanged sm it) (take k files))
      \<and> (fst (scan_items e al sm files c) = Inr () \<longrightarrow> k = length files)
      \<and> faults (snd (scan_items e al sm files c)) = faults c
      \<and> (\<exists>es. trace (snd (scan_items e al sm files c)) = trace c @ es)"
proof (induction files arbitrary: c)
  case Nil
  then show ?case by (simp add: ret_def emitted_def)
next
  case (Cons it its)
  obtain r c1 where s: "scan_item e al sm it c = (r, c1)" by (cases "scan_item e al sm it c")
  obtain es1 where e1: "faults c1 = faults c" "trace c1 = trace c @ es1"
      "requests es1 = (if unchanged sm it then [] else [file_url e (href it)])"
    using scan_item_requests[of e al sm it c] s by auto
  show ?case
  proof (cases r)
    case (Inl x)
    have "scan_items e al sm (it # its) c = (Inl x, c1)" using s Inl by (simp add: andthen_def)
    then show ?thesis using e1 by (intro exI[of _ 1]) (simp add: emitted_def)
  next
    case (Inr u)
    have eq: "scan_items e al sm (it # its) c = scan_items e al sm its c1"
      using s Inr by (simp add: andthen_def)
    obtain k es2 where k: "k \<le> length its"
        "requests (emitted c1 (snd (scan_items e al sm its c1)))
           = map (\<lambda>it. file_url e (href it)) (filter (\<lambda>it. \<not> unchanged sm it) (take k its))"
        "fst (scan_items e al sm its c1) = Inr () \<longrightarrow> k = length its"
        "faults (snd (scan_items e al sm its c1)) = faults c1"
        "trace (snd (scan_items e al sm its c1)) = trace c1 @ es2"
      using Cons.IH[of c1] by blast
    have em: "emitted c (snd (scan_items e al sm its c1)) = es1 @ es2"
      using k(5) e1(2) by (simp add: emitted_def)
    have em2: "emitted c1 (snd (scan_items e al sm its c1)) = es2"
      using k(5) by (simp add: emitted_def)
    show ?thesis
      unfolding eq using k e1 em em2
      by (intro exI[of _ "Suc k"]) (auto simp del: scan_items.simps)
  qed
qed

lemma andthen_assoc: "andthen m (\<lambda>x. andthen (f x) g) = andthen (andthen m f) g"
  by (rule ext) (auto simp: andthen_def split: prod.splits sum.splits)

lemma load_chunks_quietly: "keeps quietly (load_chunks chs st)"
proof (induction chs arbitrary: st)
  case Nil
  then show ?case by (simp add: ret_quietly)
next
  case (Cons ch chs)
  show ?case
    unfolding load_chunks.simps
    by (rule keeps_andthen[OF quietly_trans]) (simp_all add: select_state_quietly Cons.IH)
qed

lemma get_state_map_quietly: "keeps quietly (get_state_map paths)"
  by (simp add: get_state_map_def ret_quietly load_chunks_quietly)

lemma unchanged_recorded:
  assumes "get_state_map paths c = (Inr sm, c1)" and "distinct (map fst (ingest_state c))"
    and "href it \<in> set paths"
  shows "unchanged sm it = recorded_ok (ingest_state c) it"
proof -
  have look: "map_of sm (href it) = map_option entry_of (map_of (ingest_state c) (href it))"
    using get_state_map_lookup[OF assms] .
  show ?thesis
    by (cases "map_of (ingest_state c) (href it)")
      (simp_all add: unchanged_def recorded_ok_def look entry_of_def)
qed

lemma get_state_map_same:
  assumes "ingest_state a = ingest_state c"
    and "get_state_map paths a = (Inr sm, a1)" and "get_state_map paths c = (Inr sm', c1)"
    and "distinct (map fst (ingest_state c))" and "href it \<in> set paths"
  shows "unchanged sm it = unchanged sm' it"
  using unchanged_recorded[OF assms(2) _ assms(5)] unchanged_recorded[OF assms(3) assms(4) assms(5)]
    assms(1,4) by simp

lemma state_table_ready:
  assumes "andthen ensure_state_table (\<lambda>_. commit) c = (r, a)"
  shows "quietly c a \<and> ingest_state a = ingest_state c"
proof -
  have "keeps quietly (andthen ensure_state_table (\<lambda>_. commit))"
    by (rule keeps_andthen[OF quietly_trans]) (simp_all add: ensure_state_table_quietly commit_quietly)
  from keepsD[OF this, of c] have "quietly c a" using assms by simp
  moreover have "ingest_state a = ingest_state c"
    using assms
    by (auto simp: andthen_def ensure_state_table_def commit_def issue_def Let_def
        split: option.splits)
  ultimately show ?thesis by simp
qed

lemma scan_requests:
  assumes keys: "distinct (map fst (ingest_state c))"
  shows "\<exists>k\<le>length (candidate_files entries).
      requests (emitted c (snd (scan e al entries c)))
        = map (\<lambda>it. file_url e (href it))
            (filter (\<lambda>it. \<not> recorded_ok (ingest_state c) it) (take k (candidate_files entries)))
      \<and> (fst (scan e al entries c) = Inr () \<longrightarrow> k = length (candidate_files entries))"
proof -
  let ?files = "candidate_files entries"
  let ?pre = "andthen ensure_state_table (\<lambda>_. commit)"
  have sc: "scan e al entries c
      = (case andthen (andthen ?pre (\<lambda>_. get_state_map (map href ?files)))
                (\<lambda>sm. scan_items e al sm ?files) c of (r, c') \<Rightarrow> (r, close c'))"
    by (simp add: scan_def andthen_assoc)
  obtain r1 a where p: "?pre c = (r1, a)" by (cases "?pre c")
  have qa: "quietly c a" and sa: "ingest_state a = ingest_state c"
    using state_table_ready[OF p] by simp_all
  obtain esa where ta: "trace a = trace c @ esa" "requests esa = []"
    using qa by (auto simp: quietly_def)
  show ?thesis
  proof (cases r1)
    case (Inl x)
    have "scan e al entries c = (Inl x, close a)"
      unfolding sc using p Inl by (simp add: andthen_def)
    then show ?thesis using ta by (intro exI[of _ 0]) (simp add: emitted_def close_def)
  next
    case (Inr u)
    obtain r2 b where g: "get_state_map (map href ?files) a = (r2, b)"
      by (cases "get_state_map (map href ?files) a")
    have "quietly a b" using keepsD[OF get_state_map_quietly, of a "map href ?files"] g by simp
    then obtain esb where tb: "trace b = trace a @ esb" "requests esb = []"
      by (auto simp: quietly_def)
    show ?thesis
    proof (cases r2)
      case (Inl x)
      have "scan e al entries c = (Inl x, close b)"
        unfolding sc using p Inr g Inl by (simp add: andthen_def)
      then show ?thesis using ta tb by (intro exI[of _ 0]) (simp add: emitted_def close_def)
    next
      case sm: (Inr sm)
      have same: "unchanged sm it = recorded_ok (ingest_state c) it" if "it \<in> set ?files" for it
      proof -
        have "distinct (map fst (ingest_state a))" using keys sa by simp
        moreover have "href it \<in> set (map href ?files)" using that by simp
        ultimately show ?thesis using unchanged_recorded[of "map href ?files" a sm b it] g sm sa
          by simp
      qed
      let ?run = "scan_items e al sm ?files b"
      have run: "scan e al entries c = (fst ?run, close (snd ?run))"
        unfolding sc using p Inr g sm by (simp add: andthen_def split: prod.splits)
      obtain k es where k: "k \<le> length ?files"
          "requests (emitted b (snd ?run))
             = map (\<lambda>it. file_url e (href it)) (filter (\<lambda>it. \<not> unchanged sm it) (take k ?files))"
          "fst ?run = Inr () \<longrightarrow> k = length ?files"
          "trace (snd ?run) = trace b @ es"
        using scan_items_requests[of ?files b e al sm] by blast
      have f: "filter (\<lambda>it. \<not> unchanged sm it) (take k ?files)
             = filter (\<lambda>it. \<not> recorded_ok (ingest_state c) it) (take k ?files)"
        by (rule filter_cong) (auto dest: in_set_takeD simp: same)
      have em: "emitted c (close (snd ?run)) = esa @ esb @ es @ [Close]"
        using ta tb k(4) by (simp add: emitted_def close_def)
      have em2: "emitted b (snd ?run) = es" using k(4) by (simp add: emitted_def)
      have "requests (emitted c (snd (scan e al entries c)))
            = map (\<lambda>it. file_url e (href it))
                (filter (\<lambda>it. \<not> recorded_ok (ingest_state c) it) (take k ?files))"
      proof -
        have "requests (emitted c (close (snd ?run))) = requests es"
          unfolding em using ta(2) tb(2) by simp
        also have "\<dots> = map (\<lambda>it. file_url e (href it))
                (filter (\<lambda>it. \<not> recorded_ok (ingest_state c) it) (take k ?files))"
          using k(2) unfolding em2 f .
        finally show ?thesis unfolding run by simp
      qed
      moreover have "fst (scan e al entries c) = Inr () \<longrightarrow> k = length ?files"
        using k(3) unfolding run by simp
      ultimately show ?thesis using k(1) by blast
    qed
  qed
qed

lemma process_and_record_outcome:
  assumes "faults c = []"
  shows "fst (process_and_record e al it d sid ident c) = Inr ()
       \<and> map_of (ingest_state (snd (process_and_record e al it d sid ident c))) (href it)
           = Some (outcome_row it sid ident
                     (fst (process_file e (file_url e (href it)) d sid ident al c)))"
proof -
  obtain r c1 where p: "process_file e (file_url e (href it)) d sid ident al c = (r, c1)"
    by (cases "process_file e (file_url e (href it)) d sid ident al c")
  have f1: "faults c1 = []"
    using keepsD[OF process_file_quietly, of c e "file_url e (href it)" d sid ident al] p assms
    by (simp add: quietly_def)
  show ?thesis
  proof (cases r)
    case (Inr res)
    obtain ok msg where res: "res = (ok, msg)" by (cases res)
    show ?thesis
    proof (cases ok)
      case True
      then show ?thesis
        using p Inr res record_result_ok[OF f1, of it sid ident "''ok''" None]
        by (simp add: process_and_record_def try_except_def andthen_def outcome_row_def update_conv')
    next
      case False
      then show ?thesis
        using p Inr res record_result_ok[OF f1, of it sid ident "''skipped''" "Some msg"]
        by (simp add: process_and_record_def try_except_def andthen_def outcome_row_def update_conv')
    qed
  next
    case (Inl x)
    have none: "map_of (faults c1) n = None" for n using f1 by simp
    show ?thesis
      using p Inl handler_ok[OF none none none, of it sid ident "exc_text x"]
      by (simp add: process_and_record_def try_except_def andthen_def outcome_row_def update_conv')
  qed
qed

lemma download_failed:
  assumes "http_get e (file_url e (href it)) = Inl ex" and "faults c = []"
  shows "fst (download e it c) = Inr None
       \<and> map_of (ingest_state (snd (download e it c))) (href it)
           = Some (skip_row it ''error'' (''download/parse error: '' @ exc_text ex))"
proof -
  let ?cur = "c\<lparr>trace := trace c @ [HttpGet (file_url e (href it))]\<rparr>"
  have "faults ?cur = []" using assms(2) by simp
  from record_skip_ok[OF this, of it "''error''" "''download/parse error: '' @ exc_text ex"]
  show ?thesis
    using assms(1)
    by (cases "record_skip it ''error'' (''download/parse error: '' @ exc_text ex) ?cur")
      (simp add: download_def try_except_def andthen_def fetch_def ret_def)
qed

text \<open>
  C1, as amended.  Let the state table name each path once.  (1) The requests of a
  scan are, in the order of the listing, those for the candidate files that have no
  row with their present etag and last-modified text and the status \<open>ok\<close>, among the
  first \<open>k\<close> candidates; \<open>k\<close> is the number of all candidates when the scan returns,
  and smaller only when an exception ended it.  (2) With the state map \<open>sm\<close> read from
  that table, the loop body on a candidate \<open>it\<close> and any connection \<open>x\<close>: when the
  row is there, it returns at once and leaves the connection as it is; when it is not
  (no row, another etag or last-modified text, or a status such as \<open>error\<close> or
  \<open>skipped\<close>) and no call on \<open>x\<close> fails, the entry is processed as a new one would
  be and its state row is written again: with \<open>error\<close> when the download fails, with
  \<open>skipped\<close> when the marker or the SchemaID is missing, and otherwise by the guarded
  processing step, which leaves the row that the result of \<open>process_file\<close> asks for.
\<close>

theorem changed_entries_are_fetched:
  assumes keys: "distinct (map fst (ingest_state c))"
  shows "(\<exists>k\<le>length (candidate_files entries).
            requests (emitted c (snd (scan e al entries c)))
              = map (\<lambda>it. file_url e (href it))
                  (filter (\<lambda>it. \<not> recorded_ok (ingest_state c) it) (take k (candidate_files entries)))
            \<and> (fst (scan e al entries c) = Inr () \<longrightarrow> k = length (candidate_files entries)))
       \<and> (\<forall>sm c1 it x.
            get_state_map (map href (candidate_files entries)) c = (Inr sm, c1)
            \<and> it \<in> set (candidate_files entries) \<longrightarrow>
              (recorded_ok (ingest_state c) it \<longrightarrow> scan_item e al sm it x = (Inr (), x))
            \<and> (\<not> recorded_ok (ingest_state c) it \<and> faults x = [] \<longrightarrow>
                 (\<forall>ex. http_get e (file_url e (href it)) = Inl ex \<longrightarrow>
                    writes_row (scan_item e al sm it x) (href it)
                      (skip_row it ''error'' (''download/parse error: '' @ exc_text ex)))
               \<and> (\<forall>d. http_get e (file_url e (href it)) = Inr (JObj d)
                        \<and> dict_get d ''FileTypeIdentifier'' \<noteq> JStr FILE_TYPE_IDENTIFIER \<longrightarrow>
                    writes_row (scan_item e al sm it x) (href it)
                      (skip_row it ''skipped'' ''invalid FileTypeIdentifier''))
               \<and> (\<forall>d. http_get e (file_url e (href it)) = Inr (JObj d)
                        \<and> dict_get d ''FileTypeIdentifier'' = JStr FILE_TYPE_IDENTIFIER
                        \<and> (get_schema_id d = None \<or> get_schema_id d = Some []) \<longrightarrow>
                    writes_row (scan_item e al sm it x) (href it)
                      (skip_row it ''skipped'' ''missing SchemaID''))
               \<and> (\<forall>d sid. http_get e (file_url e (href it)) = Inr (JObj d)
                        \<and> dict_get d ''FileTypeIdentifier'' = JStr FILE_TYPE_IDENTIFIER
                        \<and> get_schema_id d = Some sid \<and> sid \<noteq> [] \<longrightarrow>
                    scan_item e al sm it x
                      = process_and_record e al it d sid (get_identifier d (stem (href it)))
                          (x\<lparr>trace := trace x @ [HttpGet (file_url e (href it))]\<rparr>)
                    \<and> writes_row (scan_item e al sm it x) (href it)
                        (outcome_row it sid (get_identifier d (stem (href it)))
                           (fst (process_file e (file_url e (href it)) d sid
                                   (get_identifier d (stem (href it))) al
                                   (x\<lparr>trace := trace x @ [HttpGet (file_url e (href it))]\<rparr>)))))))"
proof (intro conjI allI impI)
  show "\<exists>k\<le>length (candidate_files entries).
            requests (emitted c (snd (scan e al entries c)))
              = map (\<lambda>it. file_url e (href it))
                  (filter (\<lambda>it. \<not> recorded_ok (ingest_state c) it) (take k (candidate_files entries)))
            \<and> (fst (scan e al entries c) = Inr () \<longrightarrow> k = length (candidate_files entries))"
    by (rule scan_requests[OF keys])
next
  fix sm c1 it and x :: conn
  assume h: "get_state_map (map href (candidate_files entries)) c = (Inr sm, c1)
             \<and> it \<in> set (candidate_files entries)"
  then have u: "unchanged sm it = recorded_ok (ingest_state c) it"
    using unchanged_recorded[of "map href (candidate_files entries)" c sm c1 it] keys by simp
  {
    assume "recorded_ok (ingest_state c) it"
    then show "scan_item e al sm it x = (Inr (), x)" using u by (simp add: scan_item_def ret_def)
  }
  assume r: "\<not> recorded_ok (ingest_state c) it \<and> faults x = []"
  then have ch: "\<not> unchanged sm it" and fx: "faults x = []" using u by simp_all
  let ?url = "file_url e (href it)"
  let ?cur = "x\<lparr>trace := trace x @ [HttpGet ?url]\<rparr>"
  have fc: "faults ?cur = []" using fx by simp
  {
    fix ex
    assume g: "http_get e ?url = Inl ex"
    have "fst (download e it x) = Inr None
       \<and> map_of (ingest_state (snd (download e it x))) (href it)
           = Some (skip_row it ''error'' (''download/parse error: '' @ exc_text ex))"
      using g fx by (rule download_failed)
    then show "writes_row (scan_item e al sm it x) (href it)
            (skip_row it ''error'' (''download/parse error: '' @ exc_text ex))"
      using ch by (cases "download e it x") (simp add: scan_item_def andthen_def writes_row_def ret_def)
  }
  {
    fix d
    assume g: "http_get e ?url = Inr (JObj d)
               \<and> dict_get d ''FileTypeIdentifier'' \<noteq> JStr FILE_TYPE_IDENTIFIER"
    then have "scan_item e al sm it x = record_skip it ''skipped'' ''invalid FileTypeIdentifier'' ?cur"
      using ch by (simp add: scan_item_def download_ok andthen_def)
    then show "writes_row (scan_item e al sm it x) (href it)
                 (skip_row it ''skipped'' ''invalid FileTypeIdentifier'')"
      using record_skip_ok[OF fc, of it "''skipped''" "''invalid FileTypeIdentifier''"]
      by (simp add: writes_row_def)
  }
  {
    fix d
    assume g: "http_get e ?url = Inr (JObj d)
               \<and> dict_get d ''FileTypeIdentifier'' = JStr FILE_TYPE_IDENTIFIER
               \<and> (get_schema_id d = None \<or> get_schema_id d = Some [])"
    then have "scan_item e al sm it x = record_skip it ''skipped'' ''missing SchemaID'' ?cur"
      using ch by (auto simp: scan_item_def download_ok andthen_def)
    then show "writes_row (scan_item e al sm it x) (href it)
                 (skip_row it ''skipped'' ''missing SchemaID'')"
      using record_skip_ok[OF fc, of it "''skipped''" "''missing SchemaID''"]
      by (simp add: writes_row_def)
  }
  {
    fix d sid
    assume g: "http_get e ?url = Inr (JObj d)
               \<and> dict_get d ''FileTypeIdentifier'' = JStr FILE_TYPE_IDENTIFIER
               \<and> get_schema_id d = Some sid \<and> sid \<noteq> []"
    then show eq: "scan_item e al sm it x
            = process_and_record e al it d sid (get_identifier d (stem (href it))) ?cur"
      using scan_item_processes[OF ch, of e d sid al x] by simp
    show "writes_row (scan_item e al sm it x) (href it)
            (outcome_row it sid (get_identifier d (stem (href it)))
               (fst (process_file e ?url d sid (get_identifier d (stem (href it))) al ?cur)))"
      unfolding eq writes_row_def by (rule process_and_record_outcome[OF fc])
  }
qed

theorem changed_entries_are_fetched_witness:
  "requests (emitted retry_conn (snd (scan demo_env None [entry_b, entry_c] retry_conn)))
     = [''http://dav/a/b.json'', ''http://dav/a/c.json'']
   \<and> requests (emitted state_conn (snd (scan demo_env None [entry_b, entry_c] state_conn)))
     = [''http://dav/a/c.json'']
   \<and> scan_item demo_env None
        [(''/a/b.json'', entry_of (result_row entry_b ''T1'' ''b'' ''ok'' None)),
         (''/a/c.json'', entry_of (skip_row entry_c ''skipped'' ''missing SchemaID''))]
        entry_b state_conn = (Inr (), state_conn)
   \<and> writes_row
        (scan_item demo_env None
           [(''/a/b.json'',
             entry_of (result_row entry_b ''T1'' ''b'' ''error'' (Some ''Lock wait timeout exceeded''))),
            (''/a/c.json'', entry_of (skip_row entry_c ''skipped'' ''missing SchemaID''))]
           entry_b retry_conn)
        ''/a/b.json'' (result_row entry_b ''T1'' ''b'' ''ok'' None)
   \<and> writes_row
        (scan_item demo_env None
           [(''/a/b.json'',
             entry_of (result_row entry_b ''T1'' ''b'' ''error'' (Some ''Lock wait timeout exceeded''))),
            (''/a/c.json'', entry_of (skip_row entry_c ''skipped'' ''missing SchemaID''))]
           entry_c retry_conn)
        ''/a/c.json'' (skip_row entry_c ''skipped'' ''missing SchemaID'')
   \<and> writes_row (scan_item demo_env None [] entry_x demo_conn) ''/a/x.json''
        (skip_row entry_x ''error''
           (''download/parse error: '' @ exc_text (TransportError ''404 Client Error'')))
   \<and> writes_row (scan_item bare_env None [] entry_b demo_conn) ''/a/b.json''
        (skip_row entry_b ''skipped'' ''invalid FileTypeIdentifier'')"
proof -
  let ?files = "candidate_files [entry_b, entry_c]"
  let ?sm = "[(''/a/b.json'',
             entry_of (result_row entry_b ''T1'' ''b'' ''error'' (Some ''Lock wait timeout exceeded''))),
            (''/a/c.json'', entry_of (skip_row entry_c ''skipped'' ''missing SchemaID''))]"
  let ?sm' = "[(''/a/b.json'', entry_of (result_row entry_b ''T1'' ''b'' ''ok'' None)),
         (''/a/c.json'', entry_of (skip_row entry_c ''skipped'' ''missing SchemaID''))]"
  let ?sel = "[Exec (SelectState [''/a/b.json'', ''/a/c.json''])]"
  have d: "distinct (map fst (ingest_state retry_conn))"
    and d': "distinct (map fst (ingest_state state_conn))" by code_simp+
  note retry = changed_entries_are_fetched[OF d, of "[entry_b, entry_c]" demo_env None]
  note state = changed_entries_are_fetched[OF d', of "[entry_b, entry_c]" demo_env None]
  have fin: "fst (scan demo_env None [entry_b, entry_c] retry_conn) = Inr ()"
    and fin': "fst (scan demo_env None [entry_b, entry_c] state_conn) = Inr ()" by code_simp+
  have 1: "requests (emitted retry_conn (snd (scan demo_env None [entry_b, entry_c] retry_conn)))
     = [''http://dav/a/b.json'', ''http://dav/a/c.json'']"
  proof -
    from retry obtain k where k:
      "requests (emitted retry_conn (snd (scan demo_env None [entry_b, entry_c] retry_conn)))
         = map (\<lambda>it. file_url demo_env (href it))
             (filter (\<lambda>it. \<not> recorded_ok (ingest_state retry_conn) it) (take k ?files))"
      "fst (scan demo_env None [entry_b, entry_c] retry_conn) = Inr () \<longrightarrow> k = length ?files"
      by blast
    have kl: "k = length ?files" using k(2) fin by blast
    have "map (\<lambda>it. file_url demo_env (href it))
             (filter (\<lambda>it. \<not> recorded_ok (ingest_state retry_conn) it) (take (length ?files) ?files))
          = [''http://dav/a/b.json'', ''http://dav/a/c.json'']" by code_simp
    with k(1) show ?thesis unfolding kl by (rule trans)
  qed
  have 2: "requests (emitted state_conn (snd (scan demo_env None [entry_b, entry_c] state_conn)))
     = [''http://dav/a/c.json'']"
  proof -
    from state obtain k where k:
      "requests (emitted state_conn (snd (scan demo_env None [entry_b, entry_c] state_conn)))
         = map (\<lambda>it. file_url demo_env (href it))
             (filter (\<lambda>it. \<not> recorded_ok (ingest_state state_conn) it) (take k ?files))"
      "fst (scan demo_env None [entry_b, entry_c] state_conn) = Inr () \<longrightarrow> k = length ?files"
      by blast
    have kl: "k = length ?files" using k(2) fin' by blast
    have "map (\<lambda>it. file_url demo_env (href it))
             (filter (\<lambda>it. \<not> recorded_ok (ingest_state state_conn) it) (take (length ?files) ?files))
          = [''http://dav/a/c.json'']" by code_simp
    with k(1) show ?thesis unfolding kl by (rule trans)
  qed
  have g: "get_state_map (map href ?files) retry_conn
             = (Inr ?sm, retry_conn\<lparr>clock := 1, trace := ?sel\<rparr>)"
    and g': "get_state_map (map href ?files) state_conn
             = (Inr ?sm', state_conn\<lparr>clock := 1, trace := ?sel\<rparr>)" by code_simp+
  have mb: "entry_b \<in> set ?files" and mc: "entry_c \<in> set ?files" by code_simp+
  have ok: "recorded_ok (ingest_state state_conn) entry_b"
    and nb: "\<not> recorded_ok (ingest_state retry_conn) entry_b"
    and nc: "\<not> recorded_ok (ingest_state retry_conn) entry_c"
    and fr: "faults retry_conn = []" by code_simp+
  have 3: "scan_item demo_env None ?sm' entry_b state_conn = (Inr (), state_conn)"
    using state g' mb ok by blast
  have docb: "http_get demo_env (file_url demo_env (href entry_b)) = Inr (JObj demo_doc)"
    "dict_get demo_doc ''FileTypeIdentifier'' = JStr FILE_TYPE_IDENTIFIER"
    "get_schema_id demo_doc = Some ''T1''" "''T1'' \<noteq> []" by code_simp+
  have docc: "http_get demo_env (file_url demo_env (href entry_c)) = Inr (JObj demo_plain)"
    "dict_get demo_plain ''FileTypeIdentifier'' = JStr FILE_TYPE_IDENTIFIER"
    "get_schema_id demo_plain = None" by code_simp+
  have "writes_row (scan_item demo_env None ?sm entry_b retry_conn) (href entry_b)
          (outcome_row entry_b ''T1'' (get_identifier demo_doc (stem (href entry_b)))
             (fst (process_file demo_env (file_url demo_env (href entry_b)) demo_doc ''T1''
                     (get_identifier demo_doc (stem (href entry_b))) None
                     (retry_conn\<lparr>trace := trace retry_conn
                          @ [HttpGet (file_url demo_env (href entry_b))]\<rparr>))))"
    using retry g mb nb fr docb by blast
  moreover have "href entry_b = ''/a/b.json''" by code_simp
  moreover have "outcome_row entry_b ''T1'' (get_identifier demo_doc (stem (href entry_b)))
             (fst (process_file demo_env (file_url demo_env (href entry_b)) demo_doc ''T1''
                     (get_identifier demo_doc (stem (href entry_b))) None
                     (retry_conn\<lparr>trace := trace retry_conn
                          @ [HttpGet (file_url demo_env (href entry_b))]\<rparr>)))
        = result_row entry_b ''T1'' ''b'' ''ok'' None" by code_simp
  ultimately have 4: "writes_row (scan_item demo_env None ?sm entry_b retry_conn) ''/a/b.json''
      (result_row entry_b ''T1'' ''b'' ''ok'' None)" by (elim subst)
  have "writes_row (scan_item demo_env None ?sm entry_c retry_conn) (href entry_c)
          (skip_row entry_c ''skipped'' ''missing SchemaID'')"
    using retry g mc nc fr docc by blast
  moreover have "href entry_c = ''/a/c.json''" by code_simp
  ultimately have 5: "writes_row (scan_item demo_env None ?sm entry_c retry_conn) ''/a/c.json''
      (skip_row entry_c ''skipped'' ''missing SchemaID'')" by (elim subst)
  have dd: "distinct (map fst (ingest_state demo_conn))" and fd: "faults demo_conn = []" by code_simp+
  have gx: "get_state_map (map href (candidate_files [entry_x])) demo_conn
             = (Inr [], demo_conn\<lparr>clock := 1, trace := [Exec (SelectState [''/a/x.json''])]\<rparr>)"
    and mx: "entry_x \<in> set (candidate_files [entry_x])"
    and nx: "\<not> recorded_ok (ingest_state demo_conn) entry_x"
    and docx: "http_get demo_env (file_url demo_env (href entry_x))
                 = Inl (TransportError ''404 Client Error'')" by code_simp+
  have "writes_row (scan_item demo_env None [] entry_x demo_conn) (href entry_x)
          (skip_row entry_x ''error''
             (''download/parse error: '' @ exc_text (TransportError ''404 Client Error'')))"
    using changed_entries_are_fetched[OF dd, of "[entry_x]" demo_env None] gx mx nx fd docx by blast
  moreover have "href entry_x = ''/a/x.json''" by code_simp
  ultimately have 6: "writes_row (scan_item demo_env None [] entry_x demo_conn) ''/a/x.json''
          (skip_row entry_x ''error''
             (''download/parse error: '' @ exc_text (TransportError ''404 Client Error'')))"
    by (elim subst)
  have gb: "get_state_map (map href (candidate_files [entry_b])) demo_conn
             = (Inr [], demo_conn\<lparr>clock := 1, trace := [Exec (SelectState [''/a/b.json''])]\<rparr>)"
    and mb': "entry_b \<in> set (candidate_files [entry_b])"
    and nb': "\<not> recorded_ok (ingest_state demo_conn) entry_b"
    and docm: "http_get bare_env (file_url bare_env (href entry_b)) = Inr (JObj [(''SchemaID'', JStr ''T1'')])"
      "dict_get [(''SchemaID'', JStr ''T1'')] ''FileTypeIdentifier'' \<noteq> JStr FILE_TYPE_IDENTIFIER"
    by code_simp+
  have "writes_row (scan_item bare_env None [] entry_b demo_conn) (href entry_b)
          (skip_row entry_b ''skipped'' ''invalid FileTypeIdentifier'')"
    using changed_entries_are_fetched[OF dd, of "[entry_b]" bare_env None] gb mb' nb' fd docm by blast
  moreover have "href entry_b = ''/a/b.json''" by code_simp
  ultimately have 7: "writes_row (scan_item bare_env None [] entry_b demo_conn) ''/a/b.json''
          (skip_row entry_b ''skipped'' ''invalid FileTypeIdentifier'')"
    by (elim subst)
  from 1 2 3 4 5 6 7 show ?thesis by (intro conjI)
qed

text \<open>
  The claim as stated fails when an exception leaves the loop; only the \<open>finally\<close>
  that closes the connection stands around it.  In both scans the two entries have a
  row with their present etag and last-modified text and a status other than \<open>ok\<close>,
  so both are to be fetched.  (1) The first document has no SchemaID and the
  \<open>REPLACE\<close> that records the skip fails: the scan ends with that error and the
  second entry is never asked for.  (2) The first document is a JSON list:
  \<open>data.get\<close> of line 373 raises, and again the second entry is never asked for.
\<close>

theorem changed_entries_are_fetched_counterexample:
  "candidate_files [entry_c, entry_b] = [entry_c, entry_b]
   \<and> map_of (ingest_state lost_conn) (href entry_b)
       = Some (result_row entry_b ''T1'' ''b'' ''error'' (Some ''Lock wait timeout exceeded''))
   \<and> fst (scan demo_env None [entry_c, entry_b] lost_conn)
       = Inl (DatabaseError ''MySQL server has gone away'')
   \<and> trace (snd (scan demo_env None [entry_c, entry_b] lost_conn))
       = [Exec CreateStateTable, Commit, Exec (SelectState [''/a/c.json'', ''/a/b.json'']),
          HttpGet ''http://dav/a/c.json'',
          Exec (ReplaceState ''/a/c.json'' (skip_row entry_c ''skipped'' ''missing SchemaID'')),
          Close]
   \<and> candidate_files [entry_b, entry_c] = [entry_b, entry_c]
   \<and> map_of (ingest_state retry_conn) (href entry_c)
       = Some (skip_row entry_c ''skipped'' ''missing SchemaID'')
   \<and> fst (scan list_env None [entry_b, entry_c] retry_conn) = Inl not_a_dict
   \<and> requests (emitted retry_conn (snd (scan list_env None [entry_b, entry_c] retry_conn)))
       = [''http://dav/a/b.json'']"
  by code_simp

section \<open>The rows that are written\<close>

lemma first_collision_bound: "first_collision t r = Some i \<Longrightarrow> i < length (t_rows t)"
proof -
  assume a: "first_collision t r = Some i"
  then obtain k where k: "find (\<lambda>k. list_ex (collide (t_columns t) k r) (t_rows t)) (t_unique t) = Some k"
    and i: "i = length (takeWhile (\<lambda>r'. \<not> collide (t_columns t) k r r') (t_rows t))"
    by (auto simp: first_collision_def split: option.splits)
  from k have "list_ex (collide (t_columns t) k r) (t_rows t)"
    by (auto simp: find_Some_iff)
  then obtain r' where "r' \<in> set (t_rows t)" "collide (t_columns t) k r r'"
    by (auto simp: list_ex_iff)
  then have "takeWhile (\<lambda>r'. \<not> collide (t_columns t) k r r') (t_rows t) \<noteq> t_rows t"
    by (auto simp: takeWhile_eq_all_conv)
  moreover have "length (takeWhile (\<lambda>r'. \<not> collide (t_columns t) k r r') (t_rows t)) \<le> length (t_rows t)"
    by (rule length_takeWhile_le)
  ultimately show ?thesis
    unfolding i
    by (metis le_neq_implies_less takeWhile_eq_take take_all order_refl)
qed

lemma upsert_row_stores:
  assumes "upsert_row n cols vs c = (Inr (), c')" and "map_of (tables c) n = Some t"
  shows "\<exists>t'. map_of (tables c') n = Some t' \<and> t_columns t' = t_columns t \<and> vs \<in> set (t_rows t')"
proof (cases "first_collision t vs")
  case None
  then show ?thesis
    using assms
    by (auto simp: upsert_row_def andthen_def issue_def store_table_def Let_def update_conv'
        split: option.splits if_splits)
next
  case (Some i)
  have "i < length (t_rows t)" using first_collision_bound[OF Some] .
  then have "vs \<in> set ((t_rows t)[i := vs])" by (simp add: set_update_memI)
  then show ?thesis
    using assms Some
    by (auto simp: upsert_row_def andthen_def issue_def store_table_def Let_def update_conv'
        split: option.splits if_splits)
qed

lemma fs_process_file_writes:
  assumes "map_of (tables c) tn = Some t" and "t_columns t \<noteq> []"
    and "list_ex (like_match tn) (map fst (tables c))" and "faults c = []"
  shows "fs_process_file path tn ident d c
         = upsert_row tn (t_columns t) (row_values (t_columns t) d ident (JStr path))
             (c\<lparr>clock := clock c + 2,
                 trace := trace c @ [Exec (ShowTablesLike tn), Exec (ShowColumns tn)]\<rparr>)"
  using assms
  by (simp add: fs_process_file_def table_exists_def get_columns_def andthen_def issue_def)

lemma fs_process_file_row:
  assumes t: "map_of (tables c) tn = Some t" and ne: "t_columns t \<noteq> []"
    and ex: "list_ex (like_match tn) (map fst (tables c))" and nf: "faults c = []"
  shows "emitted c (snd (fs_process_file path tn ident d c))
           = [Exec (ShowTablesLike tn), Exec (ShowColumns tn),
              Exec (UpsertRow tn (t_columns t) (row_values (t_columns t) d ident (JStr path)))]
       \<and> (fst (fs_process_file path tn ident d c) = Inr () \<longrightarrow>
            (\<exists>t'. map_of (tables (snd (fs_process_file path tn ident d c))) tn = Some t'
                \<and> t_columns t' = t_columns t
                \<and> row_values (t_columns t) d ident (JStr path) \<in> set (t_rows t')))"
proof -
  let ?cur = "c\<lparr>clock := clock c + 2,
                 trace := trace c @ [Exec (ShowTablesLike tn), Exec (ShowColumns tn)]\<rparr>"
  let ?vs = "row_values (t_columns t) d ident (JStr path)"
  have eq: "fs_process_file path tn ident d c = upsert_row tn (t_columns t) ?vs ?cur"
    by (rule fs_process_file_writes[OF assms])
  have "trace (snd (upsert_row tn (t_columns t) ?vs ?cur))
          = trace ?cur @ [Exec (UpsertRow tn (t_columns t) ?vs)]"
    by (rule upsert_row_events)
  then have 1: "emitted c (snd (fs_process_file path tn ident d c))
           = [Exec (ShowTablesLike tn), Exec (ShowColumns tn), Exec (UpsertRow tn (t_columns t) ?vs)]"
    unfolding eq by (simp add: emitted_def)
  have 2: "\<exists>t'. map_of (tables (snd (fs_process_file path tn ident d c))) tn = Some t'
                \<and> t_columns t' = t_columns t \<and> ?vs \<in> set (t_rows t')"
    if h: "fst (fs_process_file path tn ident d c) = Inr ()"
  proof -
    obtain c' where u: "upsert_row tn (t_columns t) ?vs ?cur = (Inr (), c')"
      using h unfolding eq by (metis prod.collapse)
    have "map_of (tables ?cur) tn = Some t" using t by simp
    from upsert_row_stores[OF u this] show ?thesis unfolding eq u by simp
  qed
  show ?thesis using 1 2 by blast
qed

lemma checked_write_writes:
  assumes t: "map_of (tables c) sid = Some t" and ne: "t_columns t \<noteq> []"
    and ex: "list_ex (like_match sid) (map fst (tables c))" and nf: "faults c = []"
  shows "checked_write url d sid ident c
         = insert_if_absent url d sid ident (t_columns t)
             (c\<lparr>clock := clock c + 2,
                 trace := trace c @ [Exec (ShowTablesLike sid), Exec (ShowColumns sid)]\<rparr>)"
  using assms
  by (simp add: checked_write_def table_exists_def get_columns_def andthen_def issue_def)

lemma insert_if_absent_writes:
  assumes t: "map_of (tables c) sid = Some t" and nf: "faults c = []"
    and col: "lower (identifier_col (t_columns t)) \<in> set (map lower (t_columns t))"
    and new: "\<not> list_ex (matches (t_columns t) (identifier_col (t_columns t)) (JStr ident)) (t_rows t)"
  shows "\<exists>es. emitted c (snd (insert_if_absent url d sid ident (t_columns t) c))
           = Exec (SelectForUpdate sid (identifier_col (t_columns t)) (JStr ident))
             # Exec (InsertRow sid (t_columns t) (row_values (t_columns t) d (JStr ident) (JStr url)))
             # es
         \<and> set es \<subseteq> {Commit}"
  using assms
  by (auto simp: insert_if_absent_def select_for_update_def insert_row_def commit_def andthen_def
      issue_def ret_def emitted_def store_table_def Let_def)

lemma process_file_row:
  assumes t: "map_of (tables c) sid = Some t" and ne: "t_columns t \<noteq> []"
    and ex: "list_ex (like_match sid) (map fst (tables c))" and nf: "faults c = []"
    and al: "al = None \<or> (\<exists>l. al = Some l \<and> sid \<in> set l)"
    and sch: "schema_exists e sid"
    and val: "validate_payload e sid (JObj d) = Inr None \<or> validate_payload e sid (JObj d) = Inr (Some [])"
    and col: "lower (identifier_col (t_columns t)) \<in> set (map lower (t_columns t))"
    and new: "\<not> list_ex (matches (t_columns t) (identifier_col (t_columns t)) (JStr ident)) (t_rows t)"
  shows "(\<exists>es. emitted c (snd (process_file e url d sid ident al c))
           = Exec (ShowTablesLike sid) # Exec (ShowColumns sid)
             # Exec (SelectForUpdate sid (identifier_col (t_columns t)) (JStr ident))
             # Exec (InsertRow sid (t_columns t) (row_values (t_columns t) d (JStr ident) (JStr url)))
             # es
           \<and> set es \<subseteq> {Commit})
       \<and> (\<forall>r. fst (process_file e url d sid ident al c) = Inr r \<longrightarrow>
            r = (True, ''inserted'')
            \<and> map_of (tables (snd (process_file e url d sid ident al c))) sid
                = Some (t\<lparr>t_rows := t_rows t
                              @ [row_values (t_columns t) d (JStr ident) (JStr url)]\<rparr>))"
proof -
  let ?cur = "c\<lparr>clock := clock c + 2,
                 trace := trace c @ [Exec (ShowTablesLike sid), Exec (ShowColumns sid)]\<rparr>"
  have p: "process_file e url d sid ident al c = checked_write url d sid ident c"
    using al sch val by (auto simp: process_file_def)
  have eq: "process_file e url d sid ident al c
              = insert_if_absent url d sid ident (t_columns t) ?cur"
    unfolding p by (rule checked_write_writes[OF t ne ex nf])
  have tc: "map_of (tables ?cur) sid = Some t" and fc: "faults ?cur = []" using t nf by simp_all
  obtain es where es: "emitted ?cur (snd (insert_if_absent url d sid ident (t_columns t) ?cur))
           = Exec (SelectForUpdate sid (identifier_col (t_columns t)) (JStr ident))
             # Exec (InsertRow sid (t_columns t) (row_values (t_columns t) d (JStr ident) (JStr url)))
             # es" "set es \<subseteq> {Commit}"
    using insert_if_absent_writes[OF tc fc col new] by blast
  have ext: "\<exists>es. trace (snd (insert_if_absent url d sid ident (t_columns t) ?cur)) = trace ?cur @ es"
    using extendsD[OF extends_insert_if_absent] .
  have 1: "emitted c (snd (process_file e url d sid ident al c))
           = Exec (ShowTablesLike sid) # Exec (ShowColumns sid)
             # Exec (SelectForUpdate sid (identifier_col (t_columns t)) (JStr ident))
             # Exec (InsertRow sid (t_columns t) (row_values (t_columns t) d (JStr ident) (JStr url)))
             # es"
    using es(1) ext unfolding eq by (auto simp: emitted_def)
  have 2: "r = (True, ''inserted'')
            \<and> map_of (tables (snd (process_file e url d sid ident al c))) sid
                = Some (t\<lparr>t_rows := t_rows t
                              @ [row_values (t_columns t) d (JStr ident) (JStr url)]\<rparr>)"
    if h: "fst (process_file e url d sid ident al c) = Inr r" for r
  proof -
    obtain c' where i: "insert_if_absent url d sid ident (t_columns t) ?cur = (Inr r, c')"
      using h unfolding eq by (metis prod.collapse)
    from insert_if_absent_new[OF tc i new] show ?thesis unfolding eq i by simp
  qed
  show ?thesis using 1 2 es(2) by blast
qed

text \<open>
  C4.  \<open>row_values\<close> is the row that both write policies send.  (1) It has one value
  for each column, in the order of the columns.  (2) A column that no key of the
  document matches (keys and columns compared in lower case) holds the identifier if
  it is named \<open>identifier\<close>, the source location if it is named
  \<open>documentlocation\<close>, and \<open>NULL\<close> otherwise.  (3) A column matched by a key holds
  the value of that key (of the last such key, if several keys have the same
  lower-case form); a value that is a dict or a list is replaced by its JSON text,
  every other value is passed on as it is, and a \<open>null\<close> value is filled like an
  unmatched column.  (4, 5) Every \<open>INSERT\<close> of the remote-feed ingester and every
  merge-write statement of the filesystem ingester names the columns that the table
  has and carries \<open>row_values\<close> of them.  (6) For a table that exists and has
  columns, on a connection where no call fails: the remote-feed ingester, for a
  document that passes the checks and whose identifier is not in the table yet, sends
  \<open>SHOW TABLES\<close>, \<open>SHOW COLUMNS\<close>, the locking \<open>SELECT\<close> and then the \<open>INSERT\<close>
  with that row, and when it returns the table holds the row at its end; (7) the
  filesystem ingester sends \<open>SHOW TABLES\<close>, \<open>SHOW COLUMNS\<close> and the merge-write
  statement with that row, and when it returns the table holds the row.
\<close>

theorem projection_complete:
  "length (row_values cols d ident loc) = length cols
   \<and> (\<forall>i<length cols.
        ((\<forall>kv\<in>set d. lower (fst kv) \<noteq> lower (cols ! i))
          \<longrightarrow> row_values cols d ident loc ! i
               = (if lower (cols ! i) = ''identifier''
                  then (if is_container ident then JStr (json_dumps ident) else ident)
                  else if lower (cols ! i) = ''documentlocation''
                  then (if is_container loc then JStr (json_dumps loc) else loc)
                  else JNull))
        \<and> (\<forall>pre k v post.
              d = pre @ (k, v) # post \<and> lower k = lower (cols ! i)
              \<and> (\<forall>kv\<in>set post. lower (fst kv) \<noteq> lower (cols ! i)) \<and> k \<notin> fst ` set pre
            \<longrightarrow> row_values cols d ident loc ! i
                 = (if v \<noteq> JNull then (if is_container v then JStr (json_dumps v) else v)
                    else if lower (cols ! i) = ''identifier''
                    then (if is_container ident then JStr (json_dumps ident) else ident)
                    else if lower (cols ! i) = ''documentlocation''
                    then (if is_container loc then JStr (json_dumps loc) else loc)
                    else JNull)))
   \<and> (\<forall>n cs vs.
         Exec (InsertRow n cs vs) \<in> set (emitted c (snd (process_file e url d sid rid al c)))
         \<longrightarrow> n = sid \<and> (\<exists>t. map_of (tables c) sid = Some t \<and> cs = t_columns t)
           \<and> vs = row_values cs d (JStr rid) (JStr url))
   \<and> (\<forall>n cs vs.
         Exec (UpsertRow n cs vs) \<in> set (emitted c (snd (fs_process_file file_path tn ident d c)))
         \<longrightarrow> n = tn \<and> (\<exists>t. map_of (tables c) tn = Some t \<and> cs = t_columns t)
           \<and> vs = row_values cs d ident (JStr file_path))
   \<and> (\<forall>t. map_of (tables c) sid = Some t \<and> t_columns t \<noteq> []
            \<and> list_ex (like_match sid) (map fst (tables c)) \<and> faults c = []
            \<and> (al = None \<or> (\<exists>l. al = Some l \<and> sid \<in> set l)) \<and> schema_exists e sid
            \<and> (validate_payload e sid (JObj d) = Inr None
                \<or> validate_payload e sid (JObj d) = Inr (Some []))
            \<and> lower (identifier_col (t_columns t)) \<in> set (map lower (t_columns t))
            \<and> \<not> list_ex (matches (t_columns t) (identifier_col (t_columns t)) (JStr rid)) (t_rows t)
         \<longrightarrow> (\<exists>es. emitted c (snd (process_file e url d sid rid al c))
                  = Exec (ShowTablesLike sid) # Exec (ShowColumns sid)
                    # Exec (SelectForUpdate sid (identifier_col (t_columns t)) (JStr rid))
                    # Exec (InsertRow sid (t_columns t)
                              (row_values (t_columns t) d (JStr rid) (JStr url)))
                    # es
                  \<and> set es \<subseteq> {Commit})
             \<and> (\<forall>r. fst (process_file e url d sid rid al c) = Inr r \<longrightarrow>
                    r = (True, ''inserted'')
                    \<and> map_of (tables (snd (process_file e url d sid rid al c))) sid
                        = Some (t\<lparr>t_rows := t_rows t
                                      @ [row_values (t_columns t) d (JStr rid) (JStr url)]\<rparr>)))
   \<and> (\<forall>t. map_of (tables c) tn = Some t \<and> t_columns t \<noteq> []
            \<and> list_ex (like_match tn) (map fst (tables c)) \<and> faults c = []
         \<longrightarrow> emitted c (snd (fs_process_file file_path tn ident d c))
               = [Exec (ShowTablesLike tn), Exec (ShowColumns tn),
                  Exec (UpsertRow tn (t_columns t)
                          (row_values (t_columns t) d ident (JStr file_path)))]
             \<and> (fst (fs_process_file file_path tn ident d c) = Inr () \<longrightarrow>
                  (\<exists>t'. map_of (tables (snd (fs_process_file file_path tn ident d c))) tn = Some t'
                      \<and> t_columns t' = t_columns t
                      \<and> row_values (t_columns t) d ident (JStr file_path) \<in> set (t_rows t'))))"
proof -
  have 1: "length (row_values cols d ident loc) = length cols"
    by (simp add: row_values_def)
  have 2: "row_values cols d ident loc ! i
               = (if lower (cols ! i) = ''identifier''
                  then (if is_container ident then JStr (json_dumps ident) else ident)
                  else if lower (cols ! i) = ''documentlocation''
                  then (if is_container loc then JStr (json_dumps loc) else loc)
                  else JNull)"
    if i: "i < length cols" and u: "\<forall>kv\<in>set d. lower (fst kv) \<noteq> lower (cols ! i)" for i
    using i u by (simp add: row_values_def column_value_unmatched normalize_value_def)
  have 3: "row_values cols d ident loc ! i
                 = (if v \<noteq> JNull then (if is_container v then JStr (json_dumps v) else v)
                    else if lower (cols ! i) = ''identifier''
                    then (if is_container ident then JStr (json_dumps ident) else ident)
                    else if lower (cols ! i) = ''documentlocation''
                    then (if is_container loc then JStr (json_dumps loc) else loc)
                    else JNull)"
    if i: "i < length cols"
      and h: "d = pre @ (k, v) # post \<and> lower k = lower (cols ! i)
              \<and> (\<forall>kv\<in>set post. lower (fst kv) \<noteq> lower (cols ! i)) \<and> k \<notin> fst ` set pre"
    for i pre k v post
  proof -
    have "column_value d ident loc (cols ! i)
        = (if v \<noteq> JNull then normalize_value v
           else if lower (cols ! i) = ''identifier'' then normalize_value ident
           else if lower (cols ! i) = ''documentlocation'' then normalize_value loc
           else JNull)"
      using h column_value_matched[of k "cols ! i" post pre v ident loc] by simp
    then show ?thesis using i by (simp add: row_values_def normalize_value_def)
  qed
  have 4: "n = sid \<and> (\<exists>t. map_of (tables c) sid = Some t \<and> cs = t_columns t)
           \<and> vs = row_values cs d (JStr rid) (JStr url)"
    if "Exec (InsertRow n cs vs) \<in> set (emitted c (snd (process_file e url d sid rid al c)))"
    for n cs vs
    using process_file_inserts[OF that] .
  have 5: "n = tn \<and> (\<exists>t. map_of (tables c) tn = Some t \<and> cs = t_columns t)
           \<and> vs = row_values cs d ident (JStr file_path)"
    if "Exec (UpsertRow n cs vs) \<in> set (emitted c (snd (fs_process_file file_path tn ident d c)))"
    for n cs vs
    using fs_process_file_upserts[OF that] .
  have 6: "(\<exists>es. emitted c (snd (process_file e url d sid rid al c))
                  = Exec (ShowTablesLike sid) # Exec (ShowColumns sid)
                    # Exec (SelectForUpdate sid (identifier_col (t_columns t)) (JStr rid))
                    # Exec (InsertRow sid (t_columns t)
                              (row_values (t_columns t) d (JStr rid) (JStr url)))
                    # es
                  \<and> set es \<subseteq> {Commit})
             \<and> (\<forall>r. fst (process_file e url d sid rid al c) = Inr r \<longrightarrow>
                    r = (True, ''inserted'')
                    \<and> map_of (tables (snd (process_file e url d sid rid al c))) sid
                        = Some (t\<lparr>t_rows := t_rows t
                                      @ [row_values (t_columns t) d (JStr rid) (JStr url)]\<rparr>))"
    if h: "map_of (tables c) sid = Some t \<and> t_columns t \<noteq> []
            \<and> list_ex (like_match sid) (map fst (tables c)) \<and> faults c = []
            \<and> (al = None \<or> (\<exists>l. al = Some l \<and> sid \<in> set l)) \<and> schema_exists e sid
            \<and> (validate_payload e sid (JObj d) = Inr None
                \<or> validate_payload e sid (JObj d) = Inr (Some []))
            \<and> lower (identifier_col (t_columns t)) \<in> set (map lower (t_columns t))
            \<and> \<not> list_ex (matches (t_columns t) (identifier_col (t_columns t)) (JStr rid)) (t_rows t)"
    for t
    by (rule process_file_row) (use h in blast)+
  have 7: "emitted c (snd (fs_process_file file_path tn ident d c))
               = [Exec (ShowTablesLike tn), Exec (ShowColumns tn),
                  Exec (UpsertRow tn (t_columns t)
                          (row_values (t_columns t) d ident (JStr file_path)))]
             \<and> (fst (fs_process_file file_path tn ident d c) = Inr () \<longrightarrow>
                  (\<exists>t'. map_of (tables (snd (fs_process_file file_path tn ident d c))) tn = Some t'
                      \<and> t_columns t' = t_columns t
                      \<and> row_values (t_columns t) d ident (JStr file_path) \<in> set (t_rows t')))"
    if h: "map_of (tables c) tn = Some t \<and> t_columns t \<noteq> []
            \<and> list_ex (like_match tn) (map fst (tables c)) \<and> faults c = []"
    for t
    by (rule fs_process_file_row) (use h in blast)+
  show ?thesis
    apply (intro conjI allI impI)
    subgoal by (rule 1)
    subgoal by (rule 2)
    subgoal by (rule 3)
    subgoal using 4 by blast
    subgoal using 4 by blast
    subgoal using 4 by blast
    subgoal using 5 by blast
    subgoal using 5 by blast
    subgoal using 5 by blast
    subgoal using 6 by blast
    subgoal using 6 by blast
    subgoal using 6 by blast
    subgoal using 7 by blast
    subgoal using 7 by blast
    done
qed

theorem projection_complete_witness:
  "row_values wide_columns wide_doc (JStr ''b'') (JStr ''/a/b.json'')
     = [JStr ''b'', JStr ''/a/b.json'', JInt 42, JStr ''[\"a\", 1]'', JNull, JNull]
   \<and> length (row_values wide_columns wide_doc (JStr ''b'') (JStr ''/a/b.json'')) = length wide_columns
   \<and> row_values wide_columns wide_doc (JStr ''b'') (JStr ''/a/b.json'') ! 5 = JNull
   \<and> row_values wide_columns wide_doc (JStr ''b'') (JStr ''/a/b.json'') ! 0 = JStr ''b''
   \<and> row_values wide_columns wide_doc (JStr ''b'') (JStr ''/a/b.json'') ! 3
       = JStr (json_dumps (JArr [JStr ''a'', JInt 1]))
   \<and> row_values [''Identifier'', ''Value''] null_doc (JStr ''b'') (JStr ''/a/b.json'') ! 0 = JStr ''b''
   \<and> row_values [[CHR 0xC9, CHR ''T'', CHR 0xC9]] accent_doc (JStr ''b'') (JStr ''/a/b.json'') ! 0
       = JInt 3
   \<and> [JStr ''b'', JStr ''http://dav/a/b.json'', JInt 42]
       = row_values [''Identifier'', ''DocumentLocation'', ''Value''] demo_doc
           (JStr ''b'') (JStr ''http://dav/a/b.json'')
   \<and> [JStr ''b'', JStr ''/a/b.json'', JInt 42]
       = row_values [''Identifier'', ''DocumentLocation'', ''Value'']
           [(''SchemaID'', JStr ''T1''), (''Value'', JInt 42)] (JStr ''b'') (JStr ''/a/b.json'')
   \<and> map_of (tables (snd (process_file demo_env ''http://dav/a/b.json'' demo_doc ''T1'' ''b'' None
                              demo_conn))) ''T1''
       = Some (demo_table\<lparr>t_rows := [[JStr ''b'', JStr ''http://dav/a/b.json'', JInt 42]]\<rparr>)
   \<and> emitted fs_conn
        (snd (fs_process_file ''/a/b.json'' ''T1'' (JStr ''b'')
                [(''SchemaID'', JStr ''T1''), (''Value'', JInt 42)] fs_conn))
       = [Exec (ShowTablesLike ''T1''), Exec (ShowColumns ''T1''),
          Exec (UpsertRow ''T1'' [''Identifier'', ''DocumentLocation'', ''Value'']
                  [JStr ''b'', JStr ''/a/b.json'', JInt 42])]"
proof -
  let ?fd = "[(''SchemaID'', JStr ''T1''), (''Value'', JInt 42)]"
  let ?url = "''http://dav/a/b.json''"
  note t = projection_complete[of wide_columns wide_doc "JStr ''b''" "JStr ''/a/b.json''"]
  note cells = t[THEN conjunct2, THEN conjunct1, rule_format]
  have row: "row_values wide_columns wide_doc (JStr ''b'') (JStr ''/a/b.json'')
     = [JStr ''b'', JStr ''/a/b.json'', JInt 42, JStr ''[\"a\", 1]'', JNull, JNull]"
    by code_simp
  have len: "length (row_values wide_columns wide_doc (JStr ''b'') (JStr ''/a/b.json'')) = length wide_columns"
    using t[THEN conjunct1] .
  have i5: "5 < length wide_columns" and i0: "0 < length wide_columns" and i3: "3 < length wide_columns"
    by (simp_all add: wide_columns_def)
  have u5: "\<forall>kv\<in>set wide_doc. lower (fst kv) \<noteq> lower (wide_columns ! 5)" by code_simp
  have u0: "\<forall>kv\<in>set wide_doc. lower (fst kv) \<noteq> lower (wide_columns ! 0)" by code_simp
  have c5: "lower (wide_columns ! 5) \<noteq> ''identifier'' \<and> lower (wide_columns ! 5) \<noteq> ''documentlocation''"
    by code_simp
  have c0: "lower (wide_columns ! 0) = ''identifier''" by code_simp
  have v5: "row_values wide_columns wide_doc (JStr ''b'') (JStr ''/a/b.json'') ! 5 = JNull"
    using cells[OF i5, THEN conjunct1] u5 c5 by simp
  have v0: "row_values wide_columns wide_doc (JStr ''b'') (JStr ''/a/b.json'') ! 0 = JStr ''b''"
    using cells[OF i0, THEN conjunct1] u0 c0 by simp
  have m3: "wide_doc = [(''SchemaID'', JStr ''T1''), (''VALUE'', JInt 41), (''value'', JInt 42)]
                 @ (''tags'', JArr [JStr ''a'', JInt 1]) # [(''Note'', JNull)]
            \<and> lower ''tags'' = lower (wide_columns ! 3)
            \<and> (\<forall>kv\<in>set [(''Note'', JNull)]. lower (fst kv) \<noteq> lower (wide_columns ! 3))
            \<and> ''tags'' \<notin> fst ` set [(''SchemaID'', JStr ''T1''), (''VALUE'', JInt 41), (''value'', JInt 42)]"
    by code_simp
  have v3: "row_values wide_columns wide_doc (JStr ''b'') (JStr ''/a/b.json'') ! 3
       = JStr (json_dumps (JArr [JStr ''a'', JInt 1]))"
    using cells[OF i3, THEN conjunct2, rule_format, OF m3] by simp
  have mn: "null_doc = [] @ (''identifier'', JNull) # [(''Value'', JInt 1)]
            \<and> lower ''identifier'' = lower ([''Identifier'', ''Value''] ! 0)
            \<and> (\<forall>kv\<in>set [(''Value'', JInt 1)]. lower (fst kv) \<noteq> lower ([''Identifier'', ''Value''] ! 0))
            \<and> ''identifier'' \<notin> fst ` set []"
    by code_simp
  have cn: "lower ([''Identifier'', ''Value''] ! 0) = ''identifier''" by code_simp
  have vn: "row_values [''Identifier'', ''Value''] null_doc (JStr ''b'') (JStr ''/a/b.json'') ! 0 = JStr ''b''"
    using projection_complete[of "[''Identifier'', ''Value'']" null_doc "JStr ''b''" "JStr ''/a/b.json''",
        THEN conjunct2, THEN conjunct1, rule_format, of 0, THEN conjunct2, rule_format, OF _ mn] cn
    by simp
  have ma: "accent_doc = [] @ ([CHR 0xE9, CHR ''t'', CHR 0xE9], JInt 3) # []
            \<and> lower [CHR 0xE9, CHR ''t'', CHR 0xE9] = lower ([[CHR 0xC9, CHR ''T'', CHR 0xC9]] ! 0)
            \<and> (\<forall>kv\<in>set []. lower (fst kv) \<noteq> lower ([[CHR 0xC9, CHR ''T'', CHR 0xC9]] ! 0))
            \<and> [CHR 0xE9, CHR ''t'', CHR 0xE9] \<notin> fst ` set []"
    by code_simp
  have va: "row_values [[CHR 0xC9, CHR ''T'', CHR 0xC9]] accent_doc (JStr ''b'') (JStr ''/a/b.json'') ! 0
       = JInt 3"
    using projection_complete[of "[[CHR 0xC9, CHR ''T'', CHR 0xC9]]" accent_doc "JStr ''b''"
        "JStr ''/a/b.json''",
        THEN conjunct2, THEN conjunct1, rule_format, of 0, THEN conjunct2, rule_format, OF _ ma]
    by simp
  note web = projection_complete[of "[]" demo_doc "JStr ''b''" "JStr ''/a/b.json''" demo_conn demo_env
      ?url "''T1''" "''b''" None "''/a/b.json''" "''T1''"]
  note fs = projection_complete[of "[]" ?fd "JStr ''b''" "JStr ''/a/b.json''" fs_conn demo_env
      ?url "''T1''" "''b''" None "''/a/b.json''" "''T1''"]
  have ev1: "Exec (InsertRow ''T1'' [''Identifier'', ''DocumentLocation'', ''Value'']
                [JStr ''b'', JStr ''http://dav/a/b.json'', JInt 42])
       \<in> set (emitted demo_conn
                (snd (process_file demo_env ''http://dav/a/b.json'' demo_doc ''T1'' ''b'' None demo_conn)))"
    by code_simp
  have ev2: "Exec (UpsertRow ''T1'' [''Identifier'', ''DocumentLocation'', ''Value'']
                [JStr ''b'', JStr ''/a/b.json'', JInt 42])
       \<in> set (emitted fs_conn (snd (fs_process_file ''/a/b.json'' ''T1'' (JStr ''b'') ?fd fs_conn)))"
    by code_simp
  have w1: "[JStr ''b'', JStr ''http://dav/a/b.json'', JInt 42]
       = row_values [''Identifier'', ''DocumentLocation'', ''Value''] demo_doc
           (JStr ''b'') (JStr ''http://dav/a/b.json'')"
    using web[THEN conjunct2, THEN conjunct2, THEN conjunct1, rule_format, OF ev1] by blast
  have w2: "[JStr ''b'', JStr ''/a/b.json'', JInt 42]
       = row_values [''Identifier'', ''DocumentLocation'', ''Value''] ?fd (JStr ''b'') (JStr ''/a/b.json'')"
    using fs[THEN conjunct2, THEN conjunct2, THEN conjunct2, THEN conjunct1, rule_format, OF ev2]
    by blast
  have h6: "map_of (tables demo_conn) ''T1'' = Some demo_table \<and> t_columns demo_table \<noteq> []
            \<and> list_ex (like_match ''T1'') (map fst (tables demo_conn)) \<and> faults demo_conn = []
            \<and> (None = None \<or> (\<exists>l. None = Some l \<and> ''T1'' \<in> set l)) \<and> schema_exists demo_env ''T1''
            \<and> (validate_payload demo_env ''T1'' (JObj demo_doc) = Inr None
                \<or> validate_payload demo_env ''T1'' (JObj demo_doc) = Inr (Some []))
            \<and> lower (identifier_col (t_columns demo_table)) \<in> set (map lower (t_columns demo_table))
            \<and> \<not> list_ex (matches (t_columns demo_table) (identifier_col (t_columns demo_table))
                          (JStr ''b'')) (t_rows demo_table)"
  proof (intro conjI)
    show "map_of (tables demo_conn) ''T1'' = Some demo_table" by code_simp
    show "t_columns demo_table \<noteq> []" by code_simp
    show "list_ex (like_match ''T1'') (map fst (tables demo_conn))" by code_simp
    show "faults demo_conn = []" by code_simp
    show "None = None \<or> (\<exists>l. None = Some l \<and> ''T1'' \<in> set l)" by simp
    show "schema_exists demo_env ''T1''" by code_simp
    have "validate_payload demo_env ''T1'' (JObj demo_doc) = Inr None" by code_simp
    then show "validate_payload demo_env ''T1'' (JObj demo_doc) = Inr None
                \<or> validate_payload demo_env ''T1'' (JObj demo_doc) = Inr (Some [])" by (rule disjI1)
    show "lower (identifier_col (t_columns demo_table)) \<in> set (map lower (t_columns demo_table))"
      by code_simp
    show "\<not> list_ex (matches (t_columns demo_table) (identifier_col (t_columns demo_table))
                          (JStr ''b'')) (t_rows demo_table)" by code_simp
  qed
  have r6: "fst (process_file demo_env ?url demo_doc ''T1'' ''b'' None demo_conn)
              = Inr (True, ''inserted'')" by code_simp
  have s6: "map_of (tables (snd (process_file demo_env ?url demo_doc ''T1'' ''b'' None demo_conn))) ''T1''
          = Some (demo_table\<lparr>t_rows := t_rows demo_table
                    @ [row_values (t_columns demo_table) demo_doc (JStr ''b'') (JStr ?url)]\<rparr>)"
    using web[THEN conjunct2, THEN conjunct2, THEN conjunct2, THEN conjunct2, THEN conjunct1,
        rule_format, OF h6, THEN conjunct2, rule_format, OF r6] by (rule conjunct2)
  have e6: "demo_table\<lparr>t_rows := t_rows demo_table
                    @ [row_values (t_columns demo_table) demo_doc (JStr ''b'') (JStr ?url)]\<rparr>
        = demo_table\<lparr>t_rows := [[JStr ''b'', JStr ''http://dav/a/b.json'', JInt 42]]\<rparr>"
    by code_simp
  have p6: "map_of (tables (snd (process_file demo_env ?url demo_doc ''T1'' ''b'' None
                              demo_conn))) ''T1''
       = Some (demo_table\<lparr>t_rows := [[JStr ''b'', JStr ''http://dav/a/b.json'', JInt 42]]\<rparr>)"
    using s6 unfolding e6 .
  have h7: "map_of (tables fs_conn) ''T1'' = Some keyed_table \<and> t_columns keyed_table \<noteq> []
            \<and> list_ex (like_match ''T1'') (map fst (tables fs_conn)) \<and> faults fs_conn = []"
    by code_simp
  have "emitted fs_conn (snd (fs_process_file ''/a/b.json'' ''T1'' (JStr ''b'') ?fd fs_conn))
       = [Exec (ShowTablesLike ''T1''), Exec (ShowColumns ''T1''),
          Exec (UpsertRow ''T1'' (t_columns keyed_table)
                  (row_values (t_columns keyed_table) ?fd (JStr ''b'') (JStr ''/a/b.json'')))]"
    using fs[THEN conjunct2, THEN conjunct2, THEN conjunct2, THEN conjunct2, THEN conjunct2,
        rule_format, OF h7] by (rule conjunct1)
  moreover have "[Exec (ShowTablesLike ''T1''), Exec (ShowColumns ''T1''),
          Exec (UpsertRow ''T1'' (t_columns keyed_table)
                  (row_values (t_columns keyed_table) ?fd (JStr ''b'') (JStr ''/a/b.json'')))]
       = [Exec (ShowTablesLike ''T1''), Exec (ShowColumns ''T1''),
          Exec (UpsertRow ''T1'' [''Identifier'', ''DocumentLocation'', ''Value'']
                  [JStr ''b'', JStr ''/a/b.json'', JInt 42])]"
    by code_simp
  ultimately have p7: "emitted fs_conn (snd (fs_process_file ''/a/b.json'' ''T1'' (JStr ''b'') ?fd fs_conn))
       = [Exec (ShowTablesLike ''T1''), Exec (ShowColumns ''T1''),
          Exec (UpsertRow ''T1'' [''Identifier'', ''DocumentLocation'', ''Value'']
                  [JStr ''b'', JStr ''/a/b.json'', JInt 42])]"
    by (rule trans)
  from row len v5 v0 v3 vn va w1 w2 p6 p7 show ?thesis by (intro conjI)
qed

section \<open>Where the identifier goes\<close>

lemma record_result_trace:
  "\<exists>es. trace (snd (record_result it s i st err c))
          = trace c @ Exec (ReplaceState (href it) (result_row it s i st err)) # es
        \<and> set es \<subseteq> {Commit}"
  by (auto simp: record_result_def replace_state_def andthen_def issue_def commit_def
      store_state_def Let_def split: option.splits)

lemma rollback_trace: "trace (snd (rollback c)) = trace c @ [Rollback]"
  by (auto simp: rollback_def andthen_def issue_def Let_def split: option.splits)

lemma process_and_record_events:
  assumes p: "process_file e (file_url e (href it)) d sid ident al c = (r, c1)"
  shows "\<exists>es. emitted c (snd (process_and_record e al it d sid ident c)) = emitted c c1 @ es
           \<and> (\<forall>ev\<in>set es. ev = Rollback \<or> ev = Commit
                 \<or> (\<exists>row. ev = Exec (ReplaceState (href it) row) \<and> s_identifier row = Some ident))"
proof -
  obtain es1 where t1: "trace c1 = trace c @ es1"
    using extendsD[OF extends_process_file, where c=c and e1=e and url1="file_url e (href it)"
        and d1=d and s1=sid and i1=ident and al1=al] p by auto
  have rec: "\<exists>es. trace (snd (record_result it sid ident st err x)) = trace x @ es
           \<and> (\<forall>ev\<in>set es. ev = Rollback \<or> ev = Commit
                 \<or> (\<exists>row. ev = Exec (ReplaceState (href it) row) \<and> s_identifier row = Some ident))"
    for st err x
  proof -
    obtain es where "trace (snd (record_result it sid ident st err x))
          = trace x @ Exec (ReplaceState (href it) (result_row it sid ident st err)) # es"
      "set es \<subseteq> {Commit}"
      using record_result_trace by blast
    moreover have "s_identifier (result_row it sid ident st err) = Some ident"
      by (simp add: result_row_def)
    ultimately show ?thesis by (intro exI[of _ "Exec (ReplaceState (href it) (result_row it sid ident st err)) # es"]) auto
  qed
  have hand: "\<exists>es. trace (snd (andthen rollback (\<lambda>_. record_result it sid ident ''error'' (Some m)) x))
             = trace x @ es
           \<and> (\<forall>ev\<in>set es. ev = Rollback \<or> ev = Commit
                 \<or> (\<exists>row. ev = Exec (ReplaceState (href it) row) \<and> s_identifier row = Some ident))"
    for m x
  proof -
    obtain r2 x2 where rb: "rollback x = (r2, x2)" by (cases "rollback x")
    have t2: "trace x2 = trace x @ [Rollback]" using rollback_trace[of x] rb by simp
    show ?thesis
    proof (cases r2)
      case (Inl y)
      then show ?thesis using rb t2 by (simp add: andthen_def)
    next
      case (Inr u)
      obtain es where "trace (snd (record_result it sid ident ''error'' (Some m) x2)) = trace x2 @ es"
        "\<forall>ev\<in>set es. ev = Rollback \<or> ev = Commit
                 \<or> (\<exists>row. ev = Exec (ReplaceState (href it) row) \<and> s_identifier row = Some ident)"
        using rec by blast
      then show ?thesis using rb t2 Inr
        by (intro exI[of _ "Rollback # es"]) (simp add: andthen_def)
    qed
  qed
  let ?good = "\<lambda>es. \<forall>ev\<in>set es. ev = Rollback \<or> ev = Commit
                 \<or> (\<exists>row. ev = Exec (ReplaceState (href it) row) \<and> s_identifier row = Some ident)"
  have "\<exists>es. trace (snd (process_and_record e al it d sid ident c)) = trace c1 @ es \<and> ?good es"
  proof (cases r)
    case (Inl y)
    have "process_and_record e al it d sid ident c
          = andthen rollback (\<lambda>_. record_result it sid ident ''error'' (Some (exc_text y))) c1"
      using p Inl by (simp add: process_and_record_def try_except_def andthen_def)
    then show ?thesis using hand[of "exc_text y" c1] by simp
  next
    case (Inr res)
    let ?st = "if fst res then ''ok'' else ''skipped''"
    let ?err = "if fst res then None else Some (snd res)"
    obtain r3 c3 where rr: "record_result it sid ident ?st ?err c1 = (r3, c3)"
      by (cases "record_result it sid ident ?st ?err c1")
    obtain es3 where e3: "trace c3 = trace c1 @ es3" "?good es3"
      using rec[of ?st ?err c1] rr by auto
    show ?thesis
    proof (cases r3)
      case ok: (Inr u)
      have "process_and_record e al it d sid ident c = (Inr u, c3)"
        using p Inr rr ok by (simp add: process_and_record_def try_except_def andthen_def)
      then show ?thesis using e3 by auto
    next
      case (Inl y)
      have eq: "process_and_record e al it d sid ident c
          = andthen rollback (\<lambda>_. record_result it sid ident ''error'' (Some (exc_text y))) c3"
        using p Inr rr Inl by (simp add: process_and_record_def try_except_def andthen_def)
      obtain es4 where e4: "trace (snd (andthen rollback
               (\<lambda>_. record_result it sid ident ''error'' (Some (exc_text y))) c3)) = trace c3 @ es4"
        "?good es4"
        using hand[of "exc_text y" c3] by blast
      show ?thesis unfolding eq using e3 e4 by (intro exI[of _ "es3 @ es4"]) auto
    qed
  qed
  then show ?thesis using t1 by (auto simp: emitted_def)
qed

lemma select_for_update_events:
  "trace (snd (select_for_update n col v c)) = trace c @ [Exec (SelectForUpdate n col v)]"
  by (auto simp: select_for_update_def andthen_def issue_def Let_def split: option.splits)

lemma process_file_lookups:
  assumes "Exec (SelectForUpdate n col v) \<in> set (emitted c (snd (process_file e url d sid ident al c)))"
  shows "v = JStr ident"
proof -
  have "process_file e url d sid ident al c = checked_write url d sid ident c
        \<or> trace (snd (process_file e url d sid ident al c)) = trace c"
    by (auto simp: process_file_def ret_def raise_def split: sum.splits option.splits)
  then show ?thesis
  proof
    assume eq: "process_file e url d sid ident al c = checked_write url d sid ident c"
    from checked_write_shape[of c url d sid ident] assms show ?thesis
      unfolding eq by auto
  next
    assume "trace (snd (process_file e url d sid ident al c)) = trace c"
    then show ?thesis using assms by (simp add: emitted_def)
  qed
qed

lemma outcome_row_identifier: "s_identifier (outcome_row it sid ident r) = Some ident"
  by (cases r) (auto simp: outcome_row_def result_row_def)

lemma data_keys_some:
  "data_keys d l = Some k \<Longrightarrow> lower k = l \<and> k \<in> fst ` set d"
proof -
  assume a: "data_keys d l = Some k"
  let ?ks = "filter (\<lambda>k. lower k = l) (map fst d)"
  have ne: "?ks \<noteq> []" using a unfolding data_keys_def fold_keys_lookup by (auto split: if_splits)
  then have "k = last ?ks" using a unfolding data_keys_def fold_keys_lookup by simp
  then have "k \<in> set ?ks" using ne last_in_set by blast
  then show ?thesis by auto
qed

lemma dict_get_null:
  "\<forall>kv\<in>set d. fst kv = k \<longrightarrow> snd kv = JNull \<Longrightarrow> dict_get d k = JNull"
  by (induction d) (auto simp: dict_get_def)

lemma column_value_filled:
  assumes "lower col = ''identifier''"
    and "\<forall>kv\<in>set d. lower (fst kv) = ''identifier'' \<longrightarrow> snd kv = JNull"
  shows "column_value d ident loc col = normalize_value ident"
proof (cases "data_keys d (lower col)")
  case None
  then show ?thesis using assms(1) by (simp add: column_value_def)
next
  case (Some k)
  then have "lower k = ''identifier''" using data_keys_some[OF Some] assms(1) by simp
  then have "dict_get d k = JNull" using assms(2) by (intro dict_get_null) auto
  then show ?thesis using Some assms(1) by (simp add: column_value_def)
qed

lemma ingest_files_step:
  assumes "path_name (f_path f) \<noteq> ''.db_ingest_state.json''"
    and "f_content f = Inr (JObj d)" and "get_schema_id d = Some sid" and "sid \<noteq> []"
  shows "ingest_files (f # fs) cur c
         = ingest_files fs
             (AList.update (f_path f) (sid, identifier_of d (stem (f_path f))) cur)
             (snd (fs_process_file (f_path f) sid (identifier_of d (stem (f_path f))) d c))"
proof -
  let ?m = "fs_process_file (f_path f) sid (identifier_of d (stem (f_path f))) d"
  have "attempt ?m c = (Inr (), snd (?m c))"
    by (cases "?m c"; cases "fst (?m c)") (auto simp: attempt_def try_except_def ret_def)
  then show ?thesis using assms by (simp add: andthen_def)
qed

lemma process_file_no_state:
  "Exec (ReplaceState p row) \<notin> set (emitted c (snd (process_file e url d sid ident al c)))"
proof -
  have "process_file e url d sid ident al c = checked_write url d sid ident c
        \<or> trace (snd (process_file e url d sid ident al c)) = trace c"
    by (auto simp: process_file_def ret_def raise_def split: sum.splits option.splits)
  then show ?thesis
  proof
    assume eq: "process_file e url d sid ident al c = checked_write url d sid ident c"
    from checked_write_shape[of c url d sid ident] show ?thesis
      unfolding eq by auto
  next
    assume "trace (snd (process_file e url d sid ident al c)) = trace c"
    then show ?thesis by (simp add: emitted_def)
  qed
qed

lemma scan_item_identifier:
  assumes ch: "\<not> unchanged sm it"
    and get: "http_get e (file_url e (href it)) = Inr (JObj d)"
    and marker: "dict_get d ''FileTypeIdentifier'' = JStr FILE_TYPE_IDENTIFIER"
    and sid: "get_schema_id d = Some sid" "sid \<noteq> []"
  shows "(\<forall>n col v. Exec (SelectForUpdate n col v) \<in> set (emitted x (snd (scan_item e al sm it x)))
            \<longrightarrow> v = JStr (get_identifier d (stem (href it))))
       \<and> (\<forall>n cs vs. Exec (InsertRow n cs vs) \<in> set (emitted x (snd (scan_item e al sm it x)))
            \<longrightarrow> vs = row_values cs d (JStr (get_identifier d (stem (href it))))
                       (JStr (file_url e (href it))))
       \<and> (\<forall>p row. Exec (ReplaceState p row) \<in> set (emitted x (snd (scan_item e al sm it x)))
            \<longrightarrow> s_identifier row = Some (get_identifier d (stem (href it))))"
proof -
  let ?ident = "get_identifier d (stem (href it))"
  let ?url = "file_url e (href it)"
  let ?cur = "x\<lparr>trace := trace x @ [HttpGet ?url]\<rparr>"
  have eq: "scan_item e al sm it x = process_and_record e al it d sid ?ident ?cur"
    by (rule scan_item_processes[OF ch get marker sid])
  obtain r c1 where p: "process_file e ?url d sid ?ident al ?cur = (r, c1)"
    by (cases "process_file e ?url d sid ?ident al ?cur")
  obtain es where es: "emitted ?cur (snd (process_and_record e al it d sid ?ident ?cur))
        = emitted ?cur c1 @ es"
      "\<forall>ev\<in>set es. ev = Rollback \<or> ev = Commit
          \<or> (\<exists>row. ev = Exec (ReplaceState (href it) row) \<and> s_identifier row = Some ?ident)"
    using process_and_record_events[OF p] by blast
  obtain es0 where t0: "trace (snd (process_and_record e al it d sid ?ident ?cur)) = trace ?cur @ es0"
    using extendsD[OF extends_process_and_record] by blast
  have em: "emitted x (snd (scan_item e al sm it x)) = HttpGet ?url # emitted ?cur c1 @ es"
    using es(1) t0 unfolding eq by (simp add: emitted_def)
  have c1: "c1 = snd (process_file e ?url d sid ?ident al ?cur)" using p by simp
  show ?thesis
  proof (intro conjI allI impI)
    fix n col v
    assume "Exec (SelectForUpdate n col v) \<in> set (emitted x (snd (scan_item e al sm it x)))"
    then have "Exec (SelectForUpdate n col v) \<in> set (emitted ?cur c1)"
      unfolding em using es(2) by auto
    then show "v = JStr ?ident" unfolding c1 by (rule process_file_lookups)
  next
    fix n cs vs
    assume "Exec (InsertRow n cs vs) \<in> set (emitted x (snd (scan_item e al sm it x)))"
    then have "Exec (InsertRow n cs vs) \<in> set (emitted ?cur c1)"
      unfolding em using es(2) by auto
    then show "vs = row_values cs d (JStr ?ident) (JStr ?url)"
      unfolding c1 using process_file_inserts by blast
  next
    fix p row
    assume "Exec (ReplaceState p row) \<in> set (emitted x (snd (scan_item e al sm it x)))"
    moreover have "Exec (ReplaceState p row) \<notin> set (emitted ?cur c1)"
      unfolding c1 by (rule process_file_no_state)
    ultimately have "Exec (ReplaceState p row) \<in> set es" unfolding em by auto
    then show "s_identifier row = Some ?ident" using es(2) by auto
  qed
qed

lemma run_once_single:
  assumes "path_name (f_path f) \<noteq> ''.db_ingest_state.json''"
    and "f_content f = Inr (JObj d)" and "get_schema_id d = Some sid" and "sid \<noteq> []"
  shows "fst (run_once prev [f] False c) = Inr [(f_path f, sid, identifier_of d (stem (f_path f)))]"
  using ingest_files_step[OF assms, of "[]" "[]" c]
  by (simp add: run_once_def andthen_def ret_def split: prod.splits)




text \<open>
  The projection fills a column only where the document has no value for it or the
  value \<open>null\<close> (the test is \<open>value is None\<close>).  A field \<open>Identifier\<close> with another
  false value, here \<open>0\<close>, is stored in the column as it is, while the snapshot holds the
  stem of the file name for the path.
\<close>

lemma falsy_identifier_is_stored:
  "fst (run_once [] [file_z] False fs_conn) = Inr [(''/d/z.json'', ''T1'', JStr ''z'')]
   \<and> map (\<lambda>nt. (fst nt, t_rows (snd nt))) (tables (snd (run_once [] [file_z] False fs_conn)))
       = [(''T1'', [[JInt 0, JStr ''/d/z.json'', JInt 5]])]"
  by code_simp

section \<open>Reconciling deletions\<close>

lemma keeps_delete_missing: "keeps rows_shrink (\<lambda>c. delete_missing_rows prev cur c)"
proof (induction prev)
  case Nil
  then show ?case by (simp add: keeps_def ret_def)
next
  case (Cons a prev)
  obtain p info where a: "a = (p, info)" by (cases a)
  have step: "keeps rows_shrink (andthen (attempt (delete_row (fst info) (snd info)))
                 (\<lambda>_. delete_missing_rows prev cur))"
    by (rule keeps_andthen[OF rows_shrink_trans]) (auto intro: keeps_attempt delete_row_shrink Cons.IH)
  show ?case
    using step Cons.IH unfolding a by (simp add: keeps_def)
qed

lemma delete_missing_returns: "fst (delete_missing_rows prev cur c) = Inr ()"
proof (induction prev arbitrary: c)
  case Nil
  then show ?case by (simp add: ret_def)
next
  case (Cons a prev)
  obtain p info where a: "a = (p, info)" by (cases a)
  obtain c1 where c1: "attempt (delete_row (fst info) (snd info)) c = (Inr (), c1)"
    using attempt_returns[of "delete_row (fst info) (snd info)" c]
    by (cases "attempt (delete_row (fst info) (snd info)) c") auto
  show ?case using Cons.IH c1 unfolding a by (simp add: andthen_def)
qed

text \<open>What one \<open>delete_row\<close> achieves on a connection without faults.\<close>

lemma delete_row_clears:
  assumes "faults c = []"
    and "map_of (tables (snd (delete_row tn ident c))) tn = Some t"
    and "''Identifier'' \<in> set (t_columns t) \<or> ''identifier'' \<in> set (t_columns t)"
  shows "\<not> list_ex (matches (t_columns t) (identifier_col (t_columns t)) ident) (t_rows t)"
proof -
  let ?c1 = "c\<lparr>clock := clock c + 1, trace := trace c @ [Exec (ShowColumns tn)]\<rparr>"
  have sh: "rows_shrink c (snd (delete_row tn ident c))"
    using delete_row_shrink by (simp add: keeps_def)
  have "map_option t_columns (map_of (tables c) tn) = Some (t_columns t)"
    using same_schema_columns[of c "snd (delete_row tn ident c)" tn] sh assms(2)
    by (simp add: rows_shrink_def)
  then obtain t0 where t0: "map_of (tables c) tn = Some t0" "t_columns t0 = t_columns t"
    by (cases "map_of (tables c) tn") auto
  have gc: "get_columns tn c = (Inr (t_columns t), ?c1)"
    using assms(1) t0 by (simp add: get_columns_def andthen_def issue_def)
  have idc: "lower (identifier_col (t_columns t)) \<in> set (map lower (t_columns t))"
    using assms(3) by (auto simp: identifier_col_def)
  let ?t' = "t0\<lparr>t_rows := filter (\<lambda>r. \<not> matches (t_columns t) (identifier_col (t_columns t)) ident r)
                           (t_rows t0)\<rparr>"
  have nid: "\<not> (''Identifier'' \<notin> set (t_columns t) \<and> ''identifier'' \<notin> set (t_columns t))"
    using assms(3) by blast
  have "snd (delete_row tn ident c)
        = store_table tn ?t'
            (?c1\<lparr>clock := clock ?c1 + 1,
                  trace := trace ?c1 @ [Exec (DeleteRows tn (identifier_col (t_columns t)) ident)]\<rparr>)"
    using assms(1) nid gc t0 idc
    by (auto simp: delete_row_def andthen_def delete_rows_def issue_def)
  then have "map_of (tables (snd (delete_row tn ident c))) tn = Some ?t'"
    by (simp add: store_table_def Let_def update_conv')
  then have "t = ?t'" using assms(2) by simp
  then have "t_rows t = filter (\<lambda>r. \<not> matches (t_columns t) (identifier_col (t_columns t)) ident r)
                           (t_rows t0)"
    by (metis (no_types, lifting) table.select_convs(3) table.surjective table.update_convs(3))
  then show ?thesis by (simp add: list_ex_iff)
qed

lemma clear_stays:
  assumes "rows_shrink c c'"
    and "\<forall>t. map_of (tables c) tn = Some t
            \<and> (''Identifier'' \<in> set (t_columns t) \<or> ''identifier'' \<in> set (t_columns t))
          \<longrightarrow> \<not> list_ex (matches (t_columns t) (identifier_col (t_columns t)) ident) (t_rows t)"
  shows "\<forall>t. map_of (tables c') tn = Some t
            \<and> (''Identifier'' \<in> set (t_columns t) \<or> ''identifier'' \<in> set (t_columns t))
          \<longrightarrow> \<not> list_ex (matches (t_columns t) (identifier_col (t_columns t)) ident) (t_rows t)"
proof (intro allI impI)
  fix t
  assume h: "map_of (tables c') tn = Some t
            \<and> (''Identifier'' \<in> set (t_columns t) \<or> ''identifier'' \<in> set (t_columns t))"
  have "map_option t_columns (map_of (tables c) tn) = Some (t_columns t)"
    using same_schema_columns[of c c' tn] assms(1) h by (simp add: rows_shrink_def)
  then obtain t0 where t0: "map_of (tables c) tn = Some t0" "t_columns t0 = t_columns t"
    by (cases "map_of (tables c) tn") auto
  have sub: "set (t_rows t) \<subseteq> set (t_rows t0)"
    using assms(1) t0(1) h unfolding rows_shrink_def by blast
  have "\<not> list_ex (matches (t_columns t0) (identifier_col (t_columns t0)) ident) (t_rows t0)"
    using assms(2) t0 h by auto
  then show "\<not> list_ex (matches (t_columns t) (identifier_col (t_columns t)) ident) (t_rows t)"
    using sub t0(2) by (auto simp: list_ex_iff)
qed

lemma delete_missing_clears:
  assumes "faults c = []"
    and "(p, tn, ident) \<in> set prev"
    and "p \<notin> set (map fst cur)"
  shows "\<forall>t. map_of (tables (snd (delete_missing_rows prev cur c))) tn = Some t
            \<and> (''Identifier'' \<in> set (t_columns t) \<or> ''identifier'' \<in> set (t_columns t))
          \<longrightarrow> \<not> list_ex (matches (t_columns t) (identifier_col (t_columns t)) ident) (t_rows t)"
  using assms
proof (induction prev arbitrary: c)
  case Nil
  then show ?case by simp
next
  case (Cons a prev)
  obtain q info where a: "a = (q, info)" by (cases a)
  show ?case
  proof (cases "q \<in> set (map fst cur)")
    case True
    then have "(p, tn, ident) \<in> set prev" using Cons.prems a by auto
    then show ?thesis using Cons.IH[OF Cons.prems(1) _ Cons.prems(3)] True a by simp
  next
    case False
    let ?m = "attempt (delete_row (fst info) (snd info))"
    obtain c1 where c1: "?m c = (Inr (), c1)"
      using attempt_returns[of "delete_row (fst info) (snd info)" c] by (cases "?m c") auto
    have c1': "c1 = snd (delete_row (fst info) (snd info) c)"
      using c1 by (cases "delete_row (fst info) (snd info) c"; cases "fst (delete_row (fst info) (snd info) c)")
        (auto simp: attempt_def try_except_def ret_def)
    have f1: "faults c1 = []"
      using delete_row_shrink[of "fst info" "snd info"] Cons.prems(1) c1'
      by (simp add: keeps_def rows_shrink_def same_schema_def)
    have eq: "delete_missing_rows (a # prev) cur c = delete_missing_rows prev cur c1"
      using False a c1 by (simp add: andthen_def)
    show ?thesis
    proof (cases "a = (p, tn, ident)")
      case True
      then have i: "fst info = tn" "snd info = ident" using a by auto
      have "\<forall>t. map_of (tables c1) tn = Some t
            \<and> (''Identifier'' \<in> set (t_columns t) \<or> ''identifier'' \<in> set (t_columns t))
          \<longrightarrow> \<not> list_ex (matches (t_columns t) (identifier_col (t_columns t)) ident) (t_rows t)"
        using delete_row_clears[OF Cons.prems(1), of tn ident] c1' i by blast
      moreover have "rows_shrink c1 (snd (delete_missing_rows prev cur c1))"
        using keeps_delete_missing by (simp add: keeps_def)
      ultimately show ?thesis unfolding eq by (rule clear_stays[rotated])
    next
      case False
      then have "(p, tn, ident) \<in> set prev" using Cons.prems(2) by auto
      then show ?thesis unfolding eq using Cons.IH[OF f1 _ Cons.prems(3)] by blast
    qed
  qed
qed

lemma update_key_set: "fst ` set (AList.update k v al) = insert k (fst ` set al)"
  by (induction al) auto

lemma ingest_files_keys:
  "ingest_files files cur c = (Inr snap, c') \<Longrightarrow>
   set (map fst snap) \<subseteq> set (map fst cur) \<union> set (map f_path files)"
proof (induction files arbitrary: cur c)
  case Nil
  then show ?case by (simp add: ret_def)
next
  case (Cons f fs)
  show ?case
  proof (cases "path_name (f_path f) = ''.db_ingest_state.json''")
    case True
    then show ?thesis using Cons.prems Cons.IH[of cur c] by auto
  next
    case False
    show ?thesis
    proof (cases "f_content f")
      case (Inl x)
      then show ?thesis using False Cons.prems Cons.IH[of cur c] by auto
    next
      case (Inr data)
      show ?thesis
      proof (cases data)
        case (JObj d)
        show ?thesis
        proof (cases "get_schema_id d")
          case None
          then show ?thesis using False Inr JObj Cons.prems Cons.IH[of cur c] by auto
        next
          case (Some sid)
          show ?thesis
          proof (cases "sid = []")
            case True
            then show ?thesis using False Inr JObj Some Cons.prems Cons.IH[of cur c] by auto
          next
            case ne: False
            let ?id = "identifier_of d (stem (f_path f))"
            obtain c1 where c1: "attempt (fs_process_file (f_path f) sid ?id d) c = (Inr (), c1)"
              using attempt_returns[of "fs_process_file (f_path f) sid ?id d" c]
              by (cases "attempt (fs_process_file (f_path f) sid ?id d) c") auto
            have "ingest_files fs (AList.update (f_path f) (sid, ?id) cur) c1 = (Inr snap, c')"
              using False Inr JObj Some ne c1 Cons.prems by (simp add: andthen_def)
            from Cons.IH[OF this] show ?thesis
              by (auto simp: update_key_set)
          qed
        qed
      qed (use False Inr Cons.prems in \<open>auto simp: raise_def\<close>)
    qed
  qed
qed

lemma keeps_ingest_files: "keeps same_schema (\<lambda>c. ingest_files files cur c)"
proof (induction files arbitrary: cur)
  case Nil
  then show ?case by (simp add: keeps_def ret_def)
next
  case (Cons f fs)
  have step: "keeps same_schema
      (andthen (attempt (fs_process_file (f_path f) sid ident d)) (\<lambda>_. ingest_files fs cur'))"
    for sid ident d cur'
    by (rule keeps_andthen[OF same_schema_trans]) (auto intro: keeps_attempt fs_process_file_same Cons.IH)
  show ?case
    using step Cons.IH
    by (auto simp: keeps_def raise_def split: sum.splits json.splits option.splits)
qed

lemma ingest_files_returns:
  assumes "\<forall>f\<in>set files. path_name (f_path f) \<noteq> ''.db_ingest_state.json''
             \<longrightarrow> (\<forall>v. f_content f = Inr v \<longrightarrow> (\<exists>d. v = JObj d))"
  shows "\<exists>snap. fst (ingest_files files cur c) = Inr snap"
  using assms
proof (induction files arbitrary: cur c)
  case Nil
  then show ?case by (simp add: ret_def)
next
  case (Cons f fs)
  have rest: "\<exists>snap. fst (ingest_files fs cur' c') = Inr snap" for cur' c'
    using Cons.IH Cons.prems by simp
  show ?case
  proof (cases "path_name (f_path f) = ''.db_ingest_state.json''")
    case True
    then show ?thesis using rest by simp
  next
    case False
    show ?thesis
    proof (cases "f_content f")
      case (Inl x)
      then show ?thesis using False rest by simp
    next
      case (Inr v)
      then obtain d where d: "v = JObj d" using Cons.prems False by auto
      show ?thesis
      proof (cases "get_schema_id d")
        case None
        then show ?thesis using False Inr d rest by simp
      next
        case (Some sid)
        show ?thesis
        proof (cases "sid = []")
          case True
          then show ?thesis using False Inr d Some rest by simp
        next
          case ne: False
          have "ingest_files (f # fs) cur c
                = ingest_files fs
                    (AList.update (f_path f) (sid, identifier_of d (stem (f_path f))) cur)
                    (snd (fs_process_file (f_path f) sid (identifier_of d (stem (f_path f))) d c))"
            using Inr d by (intro ingest_files_step[OF False _ Some ne]) simp
          then show ?thesis using rest by simp
        qed
      qed
    qed
  qed
qed




section \<open>Writing a document twice\<close>

lemma no_collision:
  "first_collision t r = None \<Longrightarrow> \<not> collides_any t r (t_rows t)"
  by (auto simp: first_collision_def collides_any_def find_None_iff list_ex_iff split: option.splits)

lemma upsert_row_outcome:
  assumes "upsert_row n cols vs c = (Inr (), c')" and "map_of (tables c) n = Some t"
  shows "\<exists>j rows. map_of (tables c') n = Some (t\<lparr>t_rows := rows\<rparr>)
           \<and> j < length rows \<and> rows ! j = vs
           \<and> \<not> collides_any t vs (take j rows @ drop (Suc j) rows)
           \<and> cols = t_columns t \<and> length vs = length cols
           \<and> faults c' = faults c \<and> map fst (tables c') = map fst (tables c)"
proof (cases "first_collision t vs")
  case None
  have "n \<in> fst ` set (tables c)" using assms(2) by (metis map_of_eq_None_iff option.distinct(1))
  then have k: "map fst (AList.update n t' (tables c)) = map fst (tables c)" for t'
    by (simp add: update_keys)
  have "\<not> collides_any t vs (take (length (t_rows t)) (t_rows t @ [vs])
                                @ drop (Suc (length (t_rows t))) (t_rows t @ [vs]))"
    using no_collision[OF None] by simp
  then show ?thesis
    using assms None k
    by (intro exI[of _ "length (t_rows t)"] exI[of _ "t_rows t @ [vs]"])
      (auto simp: upsert_row_def andthen_def issue_def store_table_def Let_def update_conv'
        split: option.splits if_splits)
next
  case (Some i)
  have "n \<in> fst ` set (tables c)" using assms(2) by (metis map_of_eq_None_iff option.distinct(1))
  then have k: "map fst (AList.update n t' (tables c)) = map fst (tables c)" for t'
    by (simp add: update_keys)
  have i: "i < length (t_rows t)" using first_collision_bound[OF Some] .
  then show ?thesis
    using assms Some k
    by (intro exI[of _ i] exI[of _ "(t_rows t)[i := vs]"])
      (auto simp: upsert_row_def andthen_def issue_def store_table_def Let_def update_conv'
        split: option.splits if_splits)
qed

lemma others_apart:
  assumes "\<not> collides_any t vs (take j rows @ drop (Suc j) rows)" and "k \<in> set (t_unique t)"
    and "i < length rows" and "i \<noteq> j"
  shows "\<not> collide (t_columns t) k vs (rows ! i)"
proof -
  have "rows ! i \<in> set (take j rows @ drop (Suc j) rows)"
  proof (cases "i < j")
    case True
    then have "rows ! i \<in> set (take j rows)" using assms(3) by (auto simp: in_set_conv_nth intro!: exI[of _ i])
    then show ?thesis by simp
  next
    case False
    then have "Suc j \<le> i" using assms(4) by simp
    then have "rows ! i \<in> set (drop (Suc j) rows)"
      using assms(3) by (auto simp: in_set_conv_nth intro!: exI[of _ "i - Suc j"])
    then show ?thesis by simp
  qed
  then show ?thesis using assms(1,2) by (auto simp: collides_any_def list_ex_iff)
qed

lemma first_collision_again:
  assumes j: "j < length (t_rows t)" "t_rows t ! j = vs"
    and apart: "\<not> collides_any t vs (take j (t_rows t) @ drop (Suc j) (t_rows t))"
    and k: "k \<in> set (t_unique t)" "key_set (key_of (t_columns t) k vs)"
  shows "first_collision t vs = Some j"
proof -
  let ?P = "\<lambda>k. list_ex (collide (t_columns t) k vs) (t_rows t)"
  have "collide (t_columns t) k vs vs" using k(2) by (simp add: collide_def)
  moreover have "vs \<in> set (t_rows t)" using j nth_mem by blast
  ultimately have "?P k" unfolding list_ex_iff by blast
  then obtain k' where f: "find ?P (t_unique t) = Some k'"
    using k(1) by (cases "find ?P (t_unique t)") (auto simp: find_None_iff)
  then have k': "k' \<in> set (t_unique t)" "?P k'" by (auto simp: find_Some_iff)
  then obtain r' where "collide (t_columns t) k' vs r'" by (auto simp: list_ex_iff)
  then have "key_set (key_of (t_columns t) k' vs)" unfolding collide_def by (rule conjunct1)
  then have self: "collide (t_columns t) k' vs (t_rows t ! j)" unfolding j(2) by (simp add: collide_def)
  have "takeWhile (\<lambda>r'. \<not> collide (t_columns t) k' vs r') (t_rows t) = take j (t_rows t)"
  proof (rule takeWhile_eq_take_P_nth)
    fix i
    assume "i < j" "i < length (t_rows t)"
    then show "\<not> collide (t_columns t) k' vs (t_rows t ! i)"
      using others_apart[OF apart k'(1), of i] by simp
  next
    show "\<not> \<not> collide (t_columns t) k' vs (t_rows t ! j)" using self by simp
  qed
  then have "length (takeWhile (\<lambda>r'. \<not> collide (t_columns t) k' vs r') (t_rows t)) = j"
    using j(1) by simp
  then show ?thesis using f by (simp add: first_collision_def)
qed

lemma upsert_row_again:
  assumes t: "map_of (tables c) n = Some t"
    and j: "j < length (t_rows t)" "t_rows t ! j = vs"
    and apart: "\<not> collides_any t vs (take j (t_rows t) @ drop (Suc j) (t_rows t))"
    and k: "k \<in> set (t_unique t)" "key_set (key_of (t_columns t) k vs)"
    and len: "length vs = length (t_columns t)"
    and nf: "map_of (faults c) (clock c) = None"
  shows "fst (upsert_row n (t_columns t) vs c) = Inr ()
       \<and> tables (snd (upsert_row n (t_columns t) vs c)) = tables c"
proof -
  have fc: "first_collision t vs = Some j" by (rule first_collision_again[OF j apart k])
  have "(t_rows t)[j := vs] = t_rows t" using j(2) by (metis list_update_id)
  then have same: "t\<lparr>t_rows := (t_rows t)[j := vs]\<rparr> = t" by simp
  have "AList.update n t (tables c) = tables c" using t by (rule update_triv)
  then show ?thesis
    using t fc apart len nf same
    by (simp add: upsert_row_def andthen_def issue_def store_table_def Let_def)
qed

lemma one_row_for_key:
  assumes j: "j < length rows" "rows ! j = vs"
    and apart: "\<not> collides_any t vs (take j rows @ drop (Suc j) rows)"
    and k: "k \<in> set (t_unique t)" "key_set (key_of (t_columns t) k vs)"
  shows "filter (collide (t_columns t) k vs) rows = [vs]"
proof -
  have split: "rows = take j rows @ vs # drop (Suc j) rows"
    using j by (metis id_take_nth_drop)
  have none: "filter (collide (t_columns t) k vs) (take j rows @ drop (Suc j) rows) = []"
    using apart k(1) by (auto simp: collides_any_def list_ex_iff filter_empty_conv)
  have self: "collide (t_columns t) k vs vs" using k(2) by (simp add: collide_def)
  have "filter (collide (t_columns t) k vs) (take j rows @ vs # drop (Suc j) rows) = [vs]"
    using none self by simp
  then show ?thesis using split by simp
qed

text \<open>
  C3, as amended.  The table \<open>tn\<close> exists and has columns, no call on the connection
  fails, and \<open>k\<close> is a primary or unique key of the table on which the row that the
  document projects to has a value other than \<open>NULL\<close> in every column.  (1) If no
  stored row collides with that row on any key, the merge-write returns.  (2) Whenever
  the merge-write of the document returns, writing the same document again returns as
  well and leaves every table as the first write left it; the table then holds
  exactly one row with the document's values in the columns of \<open>k\<close>, and that row is
  the projection of the document.
\<close>

theorem merge_write_idempotent:
  assumes t: "map_of (tables c) tn = Some t" and ne: "t_columns t \<noteq> []"
    and ex: "list_ex (like_match tn) (map fst (tables c))" and nf: "faults c = []"
    and k: "k \<in> set (t_unique t)"
    and ks: "key_set (key_of (t_columns t) k (row_values (t_columns t) d ident (JStr path)))"
  shows "(first_collision t (row_values (t_columns t) d ident (JStr path)) = None
            \<longrightarrow> fst (fs_process_file path tn ident d c) = Inr ())
       \<and> (fst (fs_process_file path tn ident d c) = Inr () \<longrightarrow>
            fst (fs_process_file path tn ident d (snd (fs_process_file path tn ident d c))) = Inr ()
            \<and> tables (snd (fs_process_file path tn ident d (snd (fs_process_file path tn ident d c))))
                = tables (snd (fs_process_file path tn ident d c))
            \<and> (\<exists>t1. map_of (tables (snd (fs_process_file path tn ident d c))) tn = Some t1
                  \<and> t_columns t1 = t_columns t \<and> t_unique t1 = t_unique t
                  \<and> filter (collide (t_columns t) k (row_values (t_columns t) d ident (JStr path)))
                       (t_rows t1)
                      = [row_values (t_columns t) d ident (JStr path)]))"
proof (intro conjI impI)
  let ?vs = "row_values (t_columns t) d ident (JStr path)"
  let ?cur = "c\<lparr>clock := clock c + 2,
                 trace := trace c @ [Exec (ShowTablesLike tn), Exec (ShowColumns tn)]\<rparr>"
  have eq: "fs_process_file path tn ident d c = upsert_row tn (t_columns t) ?vs ?cur"
    by (rule fs_process_file_writes[OF t ne ex nf])
  have tc: "map_of (tables ?cur) tn = Some t" using t by simp
  have len: "length ?vs = length (t_columns t)" by (simp add: row_values_def)
  {
    assume "first_collision t ?vs = None"
    then show "fst (fs_process_file path tn ident d c) = Inr ()"
      unfolding eq using tc len nf
      by (simp add: upsert_row_def andthen_def issue_def Let_def)
  }
  assume ok: "fst (fs_process_file path tn ident d c) = Inr ()"
  let ?c1 = "snd (fs_process_file path tn ident d c)"
  have u: "upsert_row tn (t_columns t) ?vs ?cur = (Inr (), ?c1)"
    using ok unfolding eq by (metis prod.collapse)
  obtain j rows where o: "map_of (tables ?c1) tn = Some (t\<lparr>t_rows := rows\<rparr>)"
      "j < length rows" "rows ! j = ?vs"
      "\<not> collides_any t ?vs (take j rows @ drop (Suc j) rows)"
      "faults ?c1 = faults ?cur" "map fst (tables ?c1) = map fst (tables ?cur)"
    using upsert_row_outcome[OF u tc] by blast
  let ?t1 = "t\<lparr>t_rows := rows\<rparr>"
  let ?cur1 = "?c1\<lparr>clock := clock ?c1 + 2,
                 trace := trace ?c1 @ [Exec (ShowTablesLike tn), Exec (ShowColumns tn)]\<rparr>"
  have ne1: "t_columns ?t1 \<noteq> []" using ne by simp
  have ex1: "list_ex (like_match tn) (map fst (tables ?c1))" using ex o(6) by simp
  have nf1: "faults ?c1 = []" using nf o(5) by simp
  have eq1: "fs_process_file path tn ident d ?c1 = upsert_row tn (t_columns ?t1) ?vs ?cur1"
    using fs_process_file_writes[OF o(1) ne1 ex1 nf1, of path ident d] by simp
  have t1c: "map_of (tables ?cur1) tn = Some ?t1" using o(1) by simp
  have apart1: "\<not> collides_any ?t1 ?vs (take j (t_rows ?t1) @ drop (Suc j) (t_rows ?t1))"
    using o(4) by (simp add: collides_any_def)
  have again: "fst (upsert_row tn (t_columns ?t1) ?vs ?cur1) = Inr ()
       \<and> tables (snd (upsert_row tn (t_columns ?t1) ?vs ?cur1)) = tables ?cur1"
    by (rule upsert_row_again[OF t1c _ _ apart1]) (use o(2,3) k ks len nf1 in simp_all)
  show "fst (fs_process_file path tn ident d ?c1) = Inr ()"
    unfolding eq1 using again by simp
  show "tables (snd (fs_process_file path tn ident d ?c1)) = tables ?c1"
    unfolding eq1 using again by simp
  have "filter (collide (t_columns t) k ?vs) rows = [?vs]"
    by (rule one_row_for_key[OF o(2,3,4) k ks])
  then show "\<exists>t1. map_of (tables ?c1) tn = Some t1
                  \<and> t_columns t1 = t_columns t \<and> t_unique t1 = t_unique t
                  \<and> filter (collide (t_columns t) k ?vs) (t_rows t1) = [?vs]"
    using o(1) by (intro exI[of _ ?t1]) simp
qed

theorem merge_write_idempotent_witness:
  "fst (fs_process_file ''/a/b.json'' ''T1'' (JStr ''b'') [(''SchemaID'', JStr ''T1''), (''Value'', JInt 42)]
          fs_conn) = Inr ()
   \<and> fst (fs_process_file ''/a/b.json'' ''T1'' (JStr ''b'') [(''SchemaID'', JStr ''T1''), (''Value'', JInt 42)]
          (snd (fs_process_file ''/a/b.json'' ''T1'' (JStr ''b'')
                  [(''SchemaID'', JStr ''T1''), (''Value'', JInt 42)] fs_conn))) = Inr ()
   \<and> tables (snd (fs_process_file ''/a/b.json'' ''T1'' (JStr ''b'')
          [(''SchemaID'', JStr ''T1''), (''Value'', JInt 42)]
          (snd (fs_process_file ''/a/b.json'' ''T1'' (JStr ''b'')
                  [(''SchemaID'', JStr ''T1''), (''Value'', JInt 42)] fs_conn))))
       = tables (snd (fs_process_file ''/a/b.json'' ''T1'' (JStr ''b'')
                  [(''SchemaID'', JStr ''T1''), (''Value'', JInt 42)] fs_conn))
   \<and> map_of (tables (snd (fs_process_file ''/a/b.json'' ''T1'' (JStr ''b'')
                  [(''SchemaID'', JStr ''T1''), (''Value'', JInt 42)] fs_conn))) ''T1''
       = Some (keyed_table\<lparr>t_rows := [[JStr ''b'', JStr ''/a/b.json'', JInt 42]]\<rparr>)"
proof -
  let ?d = "[(''SchemaID'', JStr ''T1''), (''Value'', JInt 42)]"
  let ?one = "fs_process_file ''/a/b.json'' ''T1'' (JStr ''b'') ?d fs_conn"
  have t: "map_of (tables fs_conn) ''T1'' = Some keyed_table" and ne: "t_columns keyed_table \<noteq> []"
    and ex: "list_ex (like_match ''T1'') (map fst (tables fs_conn))" and nf: "faults fs_conn = []"
    and k: "[''Identifier''] \<in> set (t_unique keyed_table)"
    and ks: "key_set (key_of (t_columns keyed_table) [''Identifier'']
                (row_values (t_columns keyed_table) ?d (JStr ''b'') (JStr ''/a/b.json'')))"
    and new: "first_collision keyed_table
                (row_values (t_columns keyed_table) ?d (JStr ''b'') (JStr ''/a/b.json'')) = None"
    by code_simp+
  note m = merge_write_idempotent[OF t ne ex nf k ks]
  have 1: "fst ?one = Inr ()" using m[THEN conjunct1] new by (rule mp)
  note twice = m[THEN conjunct2, THEN mp, OF 1]
  have 4: "map_of (tables (snd ?one)) ''T1''
       = Some (keyed_table\<lparr>t_rows := [[JStr ''b'', JStr ''/a/b.json'', JInt 42]]\<rparr>)"
    by code_simp
  from 1 twice[THEN conjunct1] twice[THEN conjunct2, THEN conjunct1] 4
  show ?thesis by (intro conjI)
qed

text \<open>
  The claim as stated fails for a table without a primary or unique key: the statement
  never meets a duplicate key, and every write adds a row.
\<close>

theorem merge_write_idempotent_counterexample:
  "map_of (tables plain_conn) ''T1'' = Some demo_table
   \<and> t_unique demo_table = []
   \<and> map_of (tables (snd (fs_process_file ''/a/b.json'' ''T1'' (JStr ''b'')
          [(''SchemaID'', JStr ''T1''), (''Value'', JInt 42)]
          (snd (fs_process_file ''/a/b.json'' ''T1'' (JStr ''b'')
                  [(''SchemaID'', JStr ''T1''), (''Value'', JInt 42)] plain_conn))))) ''T1''
       = Some (demo_table\<lparr>t_rows := [[JStr ''b'', JStr ''/a/b.json'', JInt 42],
                                       [JStr ''b'', JStr ''/a/b.json'', JInt 42]]\<rparr>)"
  by code_simp

end
